theory Spec2Isabelle
  imports Complex_Main "HOL-Library.Multiset" "HOL-Library.Log_Nat" "HOL-Library.Product_Lexorder"
begin

section \<open>Numbers\<close>

text \<open>
  A JavaScript \<open>number\<close> is an IEEE 754 double: \<open>NaN\<close>, one of the two infinities, or a
  finite value, kept here as the rational number it denotes (the two zeros are not told
  apart; none of the operations below depends on the sign of a zero). An arithmetic
  operation on finite values computes the exact result and rounds it to the nearest
  double, ties to the even significand: \<open>rnd\<close>.

  \<open>ilog2 a\<close> is the binary exponent of a positive \<open>a\<close> (the largest \<open>e\<close> with
  \<open>2 powi e \<le> a\<close>), found from the bit lengths of its numerator and denominator. A
  double with exponent \<open>e\<close> is a multiple of \<open>2 powi (e - 52)\<close>; the exponent is at least
  \<open>- 1022\<close> (below that the doubles are subnormal), and a rounded value of magnitude
  \<open>2 ^ 1024\<close> or more is an infinity.
\<close>

datatype number = NaN | PInf | NInf | Fin rat

definition round_half_even :: "rat \<Rightarrow> int" where
  "round_half_even x =
     (let f = \<lfloor>x\<rfloor>; d = x - of_int f
      in if d < 1 / 2 then f
         else if 1 / 2 < d then f + 1
         else if even f then f else f + 1)"

definition ilog2 :: "rat \<Rightarrow> int" where
  "ilog2 a =
     (let (p, d) = quotient_of a;
          k = bitlen p - bitlen d
      in if 2 powi k \<le> a then k else k - 1)"

definition rnd :: "rat \<Rightarrow> number" where
  "rnd x =
     (if x = 0 then Fin 0
      else
        (let e = max (ilog2 \<bar>x\<bar>) (- 1022);
             q = 2 powi (e - 52);
             y = of_int (round_half_even (x / q)) * q
         in if of_int (2 ^ 1024) \<le> \<bar>y\<bar> then (if 0 < x then PInf else NInf) else Fin y))"

text \<open>
  \<open>-\<close>, \<open>+\<close>, \<open>a - b\<close>, \<open>Math.max(0, v)\<close>, \<open>a <= b\<close> and \<open>v > 0\<close> on numbers.
\<close>

fun js_neg :: "number \<Rightarrow> number" where
  "js_neg NaN = NaN"
| "js_neg PInf = NInf"
| "js_neg NInf = PInf"
| "js_neg (Fin x) = Fin (- x)"

fun js_add :: "number \<Rightarrow> number \<Rightarrow> number" where
  "js_add NaN b = NaN"
| "js_add a NaN = NaN"
| "js_add PInf NInf = NaN"
| "js_add NInf PInf = NaN"
| "js_add PInf b = PInf"
| "js_add a PInf = PInf"
| "js_add NInf b = NInf"
| "js_add a NInf = NInf"
| "js_add (Fin x) (Fin y) = rnd (x + y)"

definition js_sub :: "number \<Rightarrow> number \<Rightarrow> number" where
  "js_sub a b = js_add a (js_neg b)"

fun max_0 :: "number \<Rightarrow> number" where
  "max_0 NaN = NaN"
| "max_0 PInf = PInf"
| "max_0 NInf = Fin 0"
| "max_0 (Fin x) = Fin (max 0 x)"


definition positive :: "number \<Rightarrow> bool" where
  "positive v = (case v of PInf \<Rightarrow> True | Fin x \<Rightarrow> 0 < x | _ \<Rightarrow> False)"

section \<open>Data model of \<open>src/index.ts\<close>\<close>

text \<open>
  The TypeScript interfaces become records and datatypes. A field called \<open>id\<close> or
  \<open>key\<close> in the source carries a suffix here (\<open>id_k\<close>, \<open>key_k\<close> for \<open>ApiKey\<close>,
  \<open>id_r\<close>, \<open>key_r\<close> for the two result shapes), since \<open>id\<close> is a HOL constant and the
  same field name occurs in several interfaces. A JavaScript string is a list of its
  code units.
\<close>

record ApiKey =
  id_k :: string
  key_k :: string

text \<open>
  \<open>ApiKeyResult = ApiUsageData | ApiErrorData\<close>. The source tells the two shapes apart by
  the presence of the property \<open>error\<close>; the constructor is that discriminator.
\<close>

datatype ApiKeyResult =
    ApiUsageData (id_r: string) (key_r: string) (startDate: string) (endDate: string)
      (orgTotalTokensUsed: number) (totalAllowance: number) (usedRatio: number)
  | ApiErrorData (id_r: string) (key_r: string) (error: string)

record UsageTotals =
  total_orgTotalTokensUsed :: number
  total_totalAllowance :: number
  totalRemaining :: number

record AggregatedResponse =
  update_time :: string
  total_count :: nat
  totals :: UsageTotals
  data :: "ApiKeyResult list"

text \<open>\<open>CONFIG\<close>: the two masking lengths.\<close>

definition KEY_MASK_PREFIX_LENGTH :: int where
  "KEY_MASK_PREFIX_LENGTH = 4"

definition KEY_MASK_SUFFIX_LENGTH :: int where
  "KEY_MASK_SUFFIX_LENGTH = 4"

section \<open>Server state and caching\<close>

text \<open>
  \<open>class ServerState\<close>: three private fields, \<open>null\<close> is \<open>None\<close>. Each method mutates
  \<open>this\<close>; the model returns the updated state.
\<close>

record ServerState =
  cachedData :: "AggregatedResponse option"
  lastError :: "string option"
  isUpdating :: bool

definition newServerState :: ServerState where
  "newServerState = \<lparr>cachedData = None, lastError = None, isUpdating = False\<rparr>"

definition getData :: "ServerState \<Rightarrow> AggregatedResponse option" where
  "getData this = cachedData this"

definition getError :: "ServerState \<Rightarrow> string option" where
  "getError this = lastError this"

definition isCurrentlyUpdating :: "ServerState \<Rightarrow> bool" where
  "isCurrentlyUpdating this = isUpdating this"

definition updateCache :: "AggregatedResponse \<Rightarrow> ServerState \<Rightarrow> ServerState" where
  "updateCache d this = this\<lparr>cachedData := Some d, lastError := None, isUpdating := False\<rparr>"

definition setError :: "string \<Rightarrow> ServerState \<Rightarrow> ServerState" where
  "setError errorMessage this = this\<lparr>lastError := Some errorMessage, isUpdating := False\<rparr>"

definition startUpdate :: "ServerState \<Rightarrow> ServerState" where
  "startUpdate this = this\<lparr>isUpdating := True\<rparr>"

definition clearCache :: "ServerState \<Rightarrow> ServerState" where
  "clearCache this = this\<lparr>cachedData := None, lastError := None, isUpdating := False\<rparr>"

section \<open>Utility functions\<close>

text \<open>
  \<open>String.prototype.substring(start, end)\<close>: both indices are clamped to the string and
  swapped when \<open>start > end\<close>; with one argument the end is the length.
\<close>

definition substring :: "string \<Rightarrow> int \<Rightarrow> int \<Rightarrow> string" where
  "substring s start end' =
     (let n = int (length s);
          a = max 0 (min start n);
          b = max 0 (min end' n);
          lo = min a b;
          hi = max a b
      in take (nat (hi - lo)) (drop (nat lo) s))"

definition substring_from :: "string \<Rightarrow> int \<Rightarrow> string" where
  "substring_from s start = substring s start (int (length s))"

definition maskApiKey :: "string \<Rightarrow> string" where
  "maskApiKey key =
     (if int (length key) \<le> KEY_MASK_PREFIX_LENGTH + KEY_MASK_SUFFIX_LENGTH
      then substring key 0 KEY_MASK_PREFIX_LENGTH @ ''...''
      else substring key 0 KEY_MASK_PREFIX_LENGTH @ ''...''
           @ substring_from key (int (length key) - KEY_MASK_SUFFIX_LENGTH))"

definition getDisplayKey :: "string \<Rightarrow> bool \<Rightarrow> string" where
  "getDisplayKey key isLoggedIn = (if isLoggedIn then key else maskApiKey key)"

definition formatDate :: "(int \<Rightarrow> string option) \<Rightarrow> int option \<Rightarrow> string" where
  \<comment> \<open>\<open>toISOString\<close> stands for \<open>new Date(timestamp).toISOString()\<close> of the runtime
      (\<open>None\<close>: it throws a RangeError); a timestamp that is \<open>null\<close>, \<open>undefined\<close> or
      \<open>NaN\<close> is \<open>None\<close>. \<open>split('T')[0]\<close> is the text before the first \<open>T\<close>.\<close>
  "formatDate toISOString timestamp =
     (case timestamp of
        None \<Rightarrow> ''N/A''
      | Some t \<Rightarrow>
          (case toISOString t of
             Some isoText \<Rightarrow> takeWhile (\<lambda>c. c \<noteq> CHR ''T'') isoText
           | None \<Rightarrow> ''Invalid Date''))"

text \<open>Decimal text of a number, as a template literal prints it.\<close>

fun decimal :: "nat \<Rightarrow> string" where
  "decimal n =
     (if n < 10 then [''0123456789'' ! n]
      else decimal (n div 10) @ [''0123456789'' ! (n mod 10)])"

declare decimal.simps [simp del]

section \<open>Exceptions and effects\<close>

text \<open>
  A thrown value is either an \<open>Error\<close> object with its message or some other value.
  An \<open>async\<close> function returns \<open>Inl e\<close> when its promise rejects with \<open>e\<close> and \<open>Inr v\<close>
  when it resolves to \<open>v\<close>. What a call does besides returning is recorded in a trace of
  events: an HTTP request (with its bearer key), a \<open>setTimeout\<close> sleep (milliseconds),
  and a group of tasks started together and awaited with \<open>Promise.all\<close>, each with its
  own trace.
\<close>

datatype exn = Error string | Thrown

datatype event = Request string | Sleep int | Parallel "event list list"

text \<open>
  \<open>Promise.all\<close> resolves to all values in order when every promise resolves and rejects
  otherwise; the model reports the first rejection in list order.
\<close>

fun promise_all :: "(exn + 'b) list \<Rightarrow> exn + 'b list" where
  "promise_all [] = Inr []"
| "promise_all (Inl e # ps) = Inl e"
| "promise_all (Inr v # ps) =
     (case promise_all ps of Inl e \<Rightarrow> Inl e | Inr vs \<Rightarrow> Inr (v # vs))"

section \<open>API data fetching\<close>

text \<open>
  \<open>Array.prototype.slice(start, end)\<close>: a negative index counts from the end, and both
  are clamped to the array.
\<close>

definition slice :: "'a list \<Rightarrow> int \<Rightarrow> int \<Rightarrow> 'a list" where
  "slice xs start end' =
     (let n = int (length xs);
          k = (if start < 0 then max (n + start) 0 else min start n);
          f = (if end' < 0 then max (n + end') 0 else min end' n)
      in take (nat (f - k)) (drop (nat k) xs))"

text \<open>
  \<open>batchProcess\<close>. The processor gives, for an item, how its promise settles and what it
  did. The \<open>for\<close> loop is \<open>batchLoop\<close>, with the loop variable \<open>i\<close>, the array \<open>results\<close>
  and the trace as arguments; \<open>concurrency\<close> is a \<open>number\<close> and may be zero or negative,
  so the loop need not end: \<open>None\<close> is a call that never settles.
\<close>

partial_function (option) batchLoop ::
  "'a list \<Rightarrow> ('a \<Rightarrow> (exn + 'b) \<times> event list) \<Rightarrow> int \<Rightarrow> int \<Rightarrow> int \<Rightarrow> 'b list \<Rightarrow> event list
     \<Rightarrow> ((exn + 'b list) \<times> event list) option" where
  "batchLoop items processor concurrency delayMs i results trace =
     (if i < int (length items) then
        (let batch = slice items i (i + concurrency);
             tasks = map processor batch;
             trace1 = trace @ [Parallel (map snd tasks)]
         in case promise_all (map fst tasks) of
              Inl e \<Rightarrow> Some (Inl e, trace1)
            | Inr batchResults \<Rightarrow>
                (if i + concurrency < int (length items)
                 then batchLoop items processor concurrency delayMs (i + concurrency)
                        (results @ batchResults) (trace1 @ [Sleep delayMs])
                 else batchLoop items processor concurrency delayMs (i + concurrency)
                        (results @ batchResults) trace1))
      else Some (Inr results, trace))"

declare batchLoop.simps [code]

definition batchProcess ::
  "'a list \<Rightarrow> ('a \<Rightarrow> (exn + 'b) \<times> event list) \<Rightarrow> int \<Rightarrow> int
     \<Rightarrow> ((exn + 'b list) \<times> event list) option" where
  "batchProcess items processor concurrency delayMs =
     batchLoop items processor concurrency delayMs 0 [] []"

text \<open>
  The usage endpoint. \<open>fetch\<close> either rejects or resolves to a response with a status and
  a body; \<open>response.json()\<close> either rejects, or gives \<open>null\<close> (destructuring it throws
  a TypeError), or gives a value whose property \<open>usage\<close> is \<open>None\<close> when absent. A
  numeric field that is absent is \<open>None\<close>.
\<close>

record Standard =
  orgTotalTokensUsed_s :: "number option"
  totalAllowance_s :: "number option"
  usedRatio_s :: "number option"

record Usage =
  startDate_u :: "int option"
  endDate_u :: "int option"
  standard :: "Standard option"

datatype body = NotJson exn | JsonNull | JsonValue "Usage option"

datatype fetch_outcome = Rejected exn | Response nat body

definition ok :: "nat \<Rightarrow> bool" where
  "ok status = (200 \<le> status \<and> status \<le> 299)"

definition or_zero :: "number option \<Rightarrow> number" where
  \<comment> \<open>\<open>x || 0\<close>: an absent field, \<open>NaN\<close> and \<open>0\<close> are falsy\<close>
  "or_zero x =
     (case x of
        None \<Rightarrow> Fin 0
      | Some v \<Rightarrow> if v = NaN \<or> v = Fin 0 then Fin 0 else v)"

text \<open>
  One pass through the \<open>try\<close> block of \<open>fetchApiKeyData\<close>, given how the request of this
  attempt went: an exception thrown inside the block (\<open>Inl\<close>), a \<open>return\<close> of a record, or
  the decision to sleep and call \<open>fetchApiKeyData\<close> again.
\<close>

datatype decision = Return ApiKeyResult | RetryAfter int

definition attempt ::
  "(int \<Rightarrow> string option) \<Rightarrow> fetch_outcome \<Rightarrow> string \<Rightarrow> string \<Rightarrow> nat \<Rightarrow> nat \<Rightarrow> exn + decision" where
  "attempt toISOString outcome id' displayKey retryCount maxRetries =
     (case outcome of
        Rejected e \<Rightarrow> Inl e
      | Response status b \<Rightarrow>
          if \<not> ok status then
            (if status = 401 \<and> retryCount < maxRetries
             then Inr (RetryAfter ((int retryCount + 1) * 1000))
             else Inr (Return (ApiErrorData id' displayKey (''HTTP '' @ decimal status))))
          else
            (case b of
               NotJson e \<Rightarrow> Inl e
             | JsonNull \<Rightarrow> Inl (Error ''TypeError'')
             | JsonValue usage \<Rightarrow>
                 (case usage of
                    None \<Rightarrow> Inr (Return (ApiErrorData id' displayKey ''Invalid API response''))
                  | Some u \<Rightarrow>
                      (case standard u of
                         None \<Rightarrow> Inr (Return (ApiErrorData id' displayKey ''Invalid API response''))
                       | Some std \<Rightarrow>
                           Inr (Return (ApiUsageData id' displayKey
                             (formatDate toISOString (startDate_u u))
                             (formatDate toISOString (endDate_u u))
                             (or_zero (orgTotalTokensUsed_s std))
                             (or_zero (totalAllowance_s std))
                             (or_zero (usedRatio_s std))))))))"

lemma attempt_RetryAfter:
  "attempt toISOString outcome id' displayKey retryCount maxRetries = Inr (RetryAfter d)
     \<Longrightarrow> retryCount < maxRetries"
  by (auto simp: attempt_def split: fetch_outcome.splits body.splits option.splits if_splits)

text \<open>
  \<open>fetchApiKeyData\<close>. \<open>net n\<close> is how the request made with \<open>retryCount = n\<close> goes. The
  \<open>catch\<close> clause turns every exception of the \<open>try\<close> block into the record
  \<open>Failed to fetch\<close>; the promise of the recursive call is returned as it is.
\<close>

function fetchApiKeyData ::
  "(int \<Rightarrow> string option) \<Rightarrow> (nat \<Rightarrow> fetch_outcome) \<Rightarrow> string \<Rightarrow> string \<Rightarrow> bool \<Rightarrow> nat
     \<Rightarrow> (exn + ApiKeyResult) \<times> event list" where
  "fetchApiKeyData toISOString net id' key isLoggedIn retryCount =
     (let displayKey = getDisplayKey key isLoggedIn;
          maxRetries = 2
      in case attempt toISOString (net retryCount) id' displayKey retryCount maxRetries of
           Inl e \<Rightarrow> (Inr (ApiErrorData id' displayKey ''Failed to fetch''), [Request key])
         | Inr (Return r) \<Rightarrow> (Inr r, [Request key])
         | Inr (RetryAfter delayMs) \<Rightarrow>
             (let (r, trace) = fetchApiKeyData toISOString net id' key isLoggedIn (retryCount + 1)
              in (r, Request key # Sleep delayMs # trace)))"
  by pat_completeness auto
termination
  by (relation "measure (\<lambda>(toISOString, net, id', key, isLoggedIn, retryCount). 2 - retryCount)")
     (auto dest: attempt_RetryAfter)

declare fetchApiKeyData.simps [simp del]

section \<open>Data aggregation\<close>

definition hasError :: "ApiKeyResult \<Rightarrow> bool" where
  \<comment> \<open>\<open>'error' in r\<close>\<close>
  "hasError r = (case r of ApiErrorData _ _ _ \<Rightarrow> True | ApiUsageData _ _ _ _ _ _ _ \<Rightarrow> False)"

definition isApiUsageData :: "ApiKeyResult \<Rightarrow> bool" where
  "isApiUsageData result = (\<not> hasError result)"

text \<open>
  \<open>Array.prototype.sort(compare)\<close> is stable: for a consistent comparator the result is
  the sorted order in which elements that compare equal keep their relative order. An
  element goes behind another one when the comparator's value for the two is greater
  than 0 (a value \<open>NaN\<close> counts as 0). Inserting each element, from the last to the
  first, in front of the first element it need not go behind gives that order. For a
  comparator that is not consistent the language leaves the order open; the properties
  below that depend on the order exclude that case.
\<close>

fun sort_insert :: "('a \<Rightarrow> 'a \<Rightarrow> number) \<Rightarrow> 'a \<Rightarrow> 'a list \<Rightarrow> 'a list" where
  "sort_insert compare x [] = [x]"
| "sort_insert compare x (y # ys) =
     (if positive (compare x y) then y # sort_insert compare x ys else x # y # ys)"

definition array_sort :: "('a \<Rightarrow> 'a \<Rightarrow> number) \<Rightarrow> 'a list \<Rightarrow> 'a list" where
  "array_sort compare xs = foldr (sort_insert compare) xs []"

definition remaining :: "ApiKeyResult \<Rightarrow> number" where
  \<comment> \<open>\<open>Math.max(0, r.totalAllowance - r.orgTotalTokensUsed)\<close>\<close>
  "remaining r = max_0 (js_sub (totalAllowance r) (orgTotalTokensUsed r))"

definition emptyTotals :: UsageTotals where
  "emptyTotals =
     \<lparr>total_orgTotalTokensUsed = Fin 0, total_totalAllowance = Fin 0, totalRemaining = Fin 0\<rparr>"

definition emptyResponse :: "string \<Rightarrow> AggregatedResponse" where
  "emptyResponse now = \<lparr>update_time = now, total_count = 0, totals = emptyTotals, data = []\<rparr>"

text \<open>
  The part of \<open>getAggregatedData\<close> after \<open>results\<close> has been awaited. \<open>now\<close> is the
  formatted Beijing time. \<open>logKeysWithBalance\<close> only writes to the console and is left
  out.
\<close>

definition aggregateResults :: "string \<Rightarrow> ApiKey list \<Rightarrow> ApiKeyResult list \<Rightarrow> AggregatedResponse" where
  "aggregateResults now keyPairs results =
     (let validResults = filter isApiUsageData results;
          sortedValid =
            map fst
              (array_sort (\<lambda>a b. js_sub (snd b) (snd a))
                 (map (\<lambda>r. (r, remaining r)) validResults));
          totals =
            foldl (\<lambda>acc res.
                \<lparr>total_orgTotalTokensUsed =
                   js_add (total_orgTotalTokensUsed acc) (orgTotalTokensUsed res),
                 total_totalAllowance = js_add (total_totalAllowance acc) (totalAllowance res),
                 totalRemaining =
                   js_add (totalRemaining acc)
                     (max_0 (js_sub (totalAllowance res) (orgTotalTokensUsed res)))\<rparr>)
              emptyTotals validResults
      in \<lparr>update_time = now,
          total_count = length keyPairs,
          totals = totals,
          data = sortedValid @ filter hasError results\<rparr>)"

text \<open>
  \<open>getAggregatedData\<close>. \<open>stored\<close> is how \<open>getAllKeys(kv)\<close> settles, and \<open>net kp n\<close> how the
  request for the key pair \<open>kp\<close> with \<open>retryCount = n\<close> goes (the ids of stored key
  pairs are names of the key-value store, so no key pair occurs twice). A rejection of
  \<open>getAllKeys\<close> or of \<open>batchProcess\<close> rejects the call.
\<close>

definition getAggregatedData ::
  "(int \<Rightarrow> string option) \<Rightarrow> (ApiKey \<Rightarrow> nat \<Rightarrow> fetch_outcome) \<Rightarrow> string \<Rightarrow> exn + ApiKey list \<Rightarrow> bool
     \<Rightarrow> (exn + AggregatedResponse) option" where
  "getAggregatedData toISOString net now stored isLoggedIn =
     (case stored of
        Inl e \<Rightarrow> Some (Inl e)
      | Inr keyPairs \<Rightarrow>
          if length keyPairs = 0 then Some (Inr (emptyResponse now))
          else
            (case batchProcess keyPairs
                    (\<lambda>kp. fetchApiKeyData toISOString (net kp) (id_k kp) (key_k kp) isLoggedIn 0)
                    10 100 of
               None \<Rightarrow> None
             | Some (Inl e, trace) \<Rightarrow> Some (Inl e)
             | Some (Inr results, trace) \<Rightarrow> Some (Inr (aggregateResults now keyPairs results))))"

section \<open>Auto-refresh logic\<close>

text \<open>
  \<open>autoRefreshData\<close> has one \<open>await\<close>. \<open>autoRefreshData_begin\<close> is the code before it,
  run without interruption when the function is called: the flag says whether the call
  went on to \<open>getAggregatedData\<close>. \<open>autoRefreshData_resume\<close> is the code after it, run
  when that promise has settled.
\<close>

definition autoRefreshData_begin :: "ServerState \<Rightarrow> ServerState \<times> bool" where
  "autoRefreshData_begin serverState =
     (if isCurrentlyUpdating serverState then (serverState, False)
      else (startUpdate serverState, True))"

definition autoRefreshData_resume :: "exn + AggregatedResponse \<Rightarrow> ServerState \<Rightarrow> ServerState" where
  "autoRefreshData_resume settled serverState =
     (case settled of
        Inr d \<Rightarrow> updateCache d serverState
      | Inl e \<Rightarrow> setError (case e of Error message \<Rightarrow> message | Thrown \<Rightarrow> ''Refresh failed'') serverState)"

text \<open>
  The single \<open>serverState\<close> object and the calls that touch it, in the order in which
  the event loop runs them: the scheduled handler calls \<open>autoRefreshData\<close>; a pending
  \<open>getAggregatedData\<close> of such a call settles; a key handler (add, import, delete) calls
  \<open>clearCache\<close>. \<open>inFlight\<close> counts the calls of \<open>autoRefreshData\<close> that wait at their
  \<open>await\<close>, \<open>cycles\<close> the fetch cycles begun so far.
\<close>

record World =
  serverState :: ServerState
  inFlight :: nat
  cycles :: nat

datatype action = Scheduled | Settled "exn + AggregatedResponse" | KeysChanged

fun step :: "World \<Rightarrow> action \<Rightarrow> World" where
  "step w Scheduled =
     (case autoRefreshData_begin (serverState w) of
        (s, True) \<Rightarrow> \<lparr>serverState = s, inFlight = inFlight w + 1, cycles = cycles w + 1\<rparr>
      | (s, False) \<Rightarrow> w\<lparr>serverState := s\<rparr>)"
| "step w (Settled r) =
     (if inFlight w = 0 then w
      else \<lparr>serverState = autoRefreshData_resume r (serverState w),
            inFlight = inFlight w - 1, cycles = cycles w\<rparr>)"
| "step w KeysChanged = w\<lparr>serverState := clearCache (serverState w)\<rparr>"

definition run :: "World \<Rightarrow> action list \<Rightarrow> World" where
  "run w as = foldl step w as"

definition start :: World where
  "start = \<lparr>serverState = newServerState, inFlight = 0, cycles = 0\<rparr>"

fun undisturbed :: "World \<Rightarrow> action list \<Rightarrow> bool" where
  \<comment> \<open>no \<open>clearCache\<close> while a call of \<open>autoRefreshData\<close> waits\<close>
  "undisturbed w [] = True"
| "undisturbed w (a # as) =
     ((a = KeysChanged \<longrightarrow> inFlight w = 0) \<and> undisturbed (step w a) as)"

section \<open>Reading a trace\<close>

text \<open>
  The number of sleeps and of requests at the top level of a trace, and the shape of a
  paced trace:
  groups of tasks with exactly one sleep of the given length between two consecutive
  groups and none after the last.
\<close>

definition sleeps :: "event list \<Rightarrow> nat" where
  "sleeps tr = length (filter (\<lambda>e. case e of Sleep d \<Rightarrow> True | _ \<Rightarrow> False) tr)"

definition requests :: "event list \<Rightarrow> nat" where
  "requests tr = length (filter (\<lambda>e. case e of Request k \<Rightarrow> True | _ \<Rightarrow> False) tr)"

fun paced :: "int \<Rightarrow> event list \<Rightarrow> bool" where
  "paced d [] = True"
| "paced d [Parallel ts] = True"
| "paced d (Parallel ts # Sleep d' # rest) = (d' = d \<and> rest \<noteq> [] \<and> paced d rest)"
| "paced d rest = False"

text \<open>The value of \<open>sortedValid\<close> in \<open>getAggregatedData\<close>, for the results awaited.\<close>

definition sortedValid :: "ApiKeyResult list \<Rightarrow> ApiKeyResult list" where
  "sortedValid results =
     map fst (array_sort (\<lambda>a b. js_sub (snd b) (snd a))
                (map (\<lambda>r. (r, remaining r)) (filter isApiUsageData results)))"

section \<open>Tools for the order of numbers\<close>




text \<open>A processor whose task resolves to its item at once.\<close>

definition instant :: "'a \<Rightarrow> (exn + 'a) \<times> event list" where
  "instant x = (Inr x, [])"

text \<open>A processor whose task rejects at once.\<close>

definition failing :: "'a \<Rightarrow> (exn + 'a) \<times> event list" where
  "failing x = (Inl Thrown, [])"

text \<open>
  A network that answers the requests of one call from a list, in order, and fails when
  the list is used up; and a usage body with the given used tokens and allowance.
\<close>

definition answers :: "fetch_outcome list \<Rightarrow> nat \<Rightarrow> fetch_outcome" where
  "answers outcomes n = (if n < length outcomes then outcomes ! n else Rejected Thrown)"

definition usage_of :: "rat \<Rightarrow> rat \<Rightarrow> Usage" where
  "usage_of used allowance =
     \<lparr>startDate_u = None, endDate_u = None,
      standard = Some \<lparr>orgTotalTokensUsed_s = Some (Fin used),
                       totalAllowance_s = Some (Fin allowance), usedRatio_s = None\<rparr>\<rparr>"

text \<open>
  Five stored key pairs and a network for them: \<open>a\<close> has 10 tokens left, \<open>b\<close> gets a 500,
  \<open>c\<close> is over its allowance (after one 401), \<open>d\<close> has 30 tokens left, \<open>e\<close> gets 401
  three times.
\<close>

definition example_keys :: "ApiKey list" where
  "example_keys =
     [\<lparr>id_k = ''a'', key_k = ''fk-AAAAAAAAAAAA''\<rparr>,
      \<lparr>id_k = ''b'', key_k = ''fk-BBBBBBBBBBBB''\<rparr>,
      \<lparr>id_k = ''c'', key_k = ''fk-CCCCCCCCCCCC''\<rparr>,
      \<lparr>id_k = ''d'', key_k = ''fk-DDDDDDDDDDDD''\<rparr>,
      \<lparr>id_k = ''e'', key_k = ''fk-EEEEEEEEEEEE''\<rparr>]"


section \<open>Properties of the display key\<close>

lemma substring_prefix: "0 \<le> k \<Longrightarrow> substring s 0 k = take (nat k) s"
  by (simp add: substring_def Let_def min_def max_def)

lemma substring_from_suffix:
  "0 \<le> k \<Longrightarrow> k \<le> int (length s) \<Longrightarrow> substring_from s k = drop (nat k) s"
  by (simp add: substring_from_def substring_def Let_def min_def max_def)

text \<open>
  C8. Masking the secret \<open>fk-ABCDEFGHIJKL\<close> (prefix length 4, suffix length 4) gives
  \<open>fk-A...IJKL\<close> when the secret is not revealed; when it is revealed, every secret is
  returned unchanged.
\<close>

theorem getDisplayKey_example_and_reveal:
  "getDisplayKey ''fk-ABCDEFGHIJKL'' False = ''fk-A...IJKL''
   \<and> (\<forall>key. getDisplayKey key True = key)"
  by (simp add: getDisplayKey_def maskApiKey_def substring_from_def substring_def
      KEY_MASK_PREFIX_LENGTH_def KEY_MASK_SUFFIX_LENGTH_def Let_def)

text \<open>
  C9. A secret of at most 8 code units (prefix length 4 plus suffix length 4) is masked
  to its first 4 code units followed by \<open>...\<close>, with no suffix; a secret of at most 4
  code units is therefore shown whole, followed by \<open>...\<close>.
\<close>

theorem maskApiKey_short:
  "(length key \<le> 8 \<longrightarrow> maskApiKey key = take 4 key @ ''...'')
   \<and> (length key \<le> 4 \<longrightarrow> maskApiKey key = key @ ''...'')"
  by (simp add: maskApiKey_def substring_prefix
      KEY_MASK_PREFIX_LENGTH_def KEY_MASK_SUFFIX_LENGTH_def)

theorem maskApiKey_short_witness:
  "length ''fk-ABCD'' \<le> 8 \<and> maskApiKey ''fk-ABCD'' = ''fk-A...''
   \<and> length ''fk-'' \<le> 4 \<and> maskApiKey ''fk-'' = ''fk-...''"
  using maskApiKey_short [of "''fk-ABCD''"] maskApiKey_short [of "''fk-''"]
  by simp

section \<open>Properties of the server state\<close>

text \<open>
  C3 (as amended). \<open>clearCache\<close> clears the snapshot and \<open>lastError\<close> and sets the
  refreshing flag \<open>isUpdating\<close> to false; the flag keeps its value exactly when it was
  false before the call.
\<close>

theorem clearCache_resets:
  "cachedData (clearCache s) = None
   \<and> lastError (clearCache s) = None
   \<and> isUpdating (clearCache s) = False
   \<and> ((isUpdating (clearCache s) = isUpdating s) = (\<not> isUpdating s))"
  by (auto simp: clearCache_def)

text \<open>The flag does not survive \<open>clearCache\<close> when a refresh is running.\<close>

theorem clearCache_refreshing_counterexample:
  "isUpdating (clearCache \<lparr>cachedData = None, lastError = None, isUpdating = True\<rparr>)
     \<noteq> isUpdating \<lparr>cachedData = None, lastError = None, isUpdating = True\<rparr>"
  by (simp add: clearCache_def)

text \<open>
  C7. \<open>setError\<close> sets the refreshing flag to false and \<open>lastError\<close> to the message and
  leaves the snapshot as it was; after \<open>updateCache d\<close>, a later \<open>setError\<close> still has the
  snapshot \<open>d\<close>.
\<close>

theorem setError_keeps_snapshot:
  "isUpdating (setError m s) = False
   \<and> lastError (setError m s) = Some m
   \<and> cachedData (setError m s) = cachedData s
   \<and> cachedData (setError m (updateCache d s)) = Some d"
  by (simp add: setError_def updateCache_def)

section \<open>Properties of the refresh guard\<close>

lemma step_consistent:
  assumes "inFlight w = (if isUpdating (serverState w) then 1 else 0)"
    and "a = KeysChanged \<longrightarrow> inFlight w = 0"
  shows "inFlight (step w a) = (if isUpdating (serverState (step w a)) then 1 else 0)"
  using assms
  by (cases a)
     (auto simp: autoRefreshData_begin_def isCurrentlyUpdating_def startUpdate_def
        autoRefreshData_resume_def updateCache_def setError_def clearCache_def
        split: sum.splits exn.splits)

lemma run_consistent:
  "inFlight w = (if isUpdating (serverState w) then 1 else 0) \<Longrightarrow> undisturbed w as
   \<Longrightarrow> inFlight (run w as) = (if isUpdating (serverState (run w as)) then 1 else 0)"
proof (induction as arbitrary: w)
  case Nil
  then show ?case by (simp add: run_def)
next
  case (Cons a as)
  from Cons.prems have "a = KeysChanged \<longrightarrow> inFlight w = 0" by simp
  with Cons.prems(1)
  have "inFlight (step w a) = (if isUpdating (serverState (step w a)) then 1 else 0)"
    by (rule step_consistent)
  moreover from Cons.prems have "undisturbed (step w a) as" by simp
  ultimately show ?case using Cons.IH [of "step w a"] by (simp add: run_def)
qed

lemma run_cycles:
  "inFlight w = (if isUpdating (serverState w) then 1 else 0) \<Longrightarrow> undisturbed w as
   \<Longrightarrow> \<forall>a\<in>set as. a = Scheduled \<or> a = KeysChanged
   \<Longrightarrow> cycles (run w as) + inFlight w \<le> cycles w + 1"
proof (induction as arbitrary: w)
  case Nil
  then show ?case by (simp add: run_def)
next
  case (Cons a as)
  from Cons.prems have k: "a = KeysChanged \<longrightarrow> inFlight w = 0" by simp
  with Cons.prems(1)
  have c: "inFlight (step w a) = (if isUpdating (serverState (step w a)) then 1 else 0)"
    by (rule step_consistent)
  from Cons.prems have "undisturbed (step w a) as"
    and "\<forall>a\<in>set as. a = Scheduled \<or> a = KeysChanged" by simp_all
  with c have "cycles (run (step w a) as) + inFlight (step w a) \<le> cycles (step w a) + 1"
    by (rule Cons.IH)
  moreover from Cons.prems(3) have "a = Scheduled \<or> a = KeysChanged" by simp
  then have "cycles (step w a) + inFlight w \<le> cycles w + inFlight (step w a)"
    by (auto simp: autoRefreshData_begin_def isCurrentlyUpdating_def startUpdate_def)
  ultimately show ?case by (simp add: run_def)
qed

text \<open>
  C6 (as amended). When a refresh is in progress, \<open>autoRefreshData\<close> returns at its guard
  without changing the state and without beginning a fetch cycle. Two calls with nothing
  between them begin at most one cycle (exactly one from an idle state). As long as
  \<open>clearCache\<close> is not called while a call of \<open>autoRefreshData\<close> waits at its \<open>await\<close>, the
  calls made from the initial state before any of them completes begin at most one
  cycle, and at most one call waits at any time.
\<close>

theorem autoRefreshData_guard:
  "(isUpdating s \<longrightarrow> autoRefreshData_begin s = (s, False))
   \<and> cycles (run w [Scheduled, Scheduled]) \<le> cycles w + 1
   \<and> (\<not> isUpdating (serverState w) \<longrightarrow> cycles (run w [Scheduled, Scheduled]) = cycles w + 1)
   \<and> (undisturbed start as \<and> (\<forall>a\<in>set as. a = Scheduled \<or> a = KeysChanged) \<longrightarrow>
        cycles (run start as) \<le> 1)
   \<and> (undisturbed start bs \<longrightarrow> inFlight (run start bs) \<le> 1)"
proof (intro conjI impI)
  assume "isUpdating s"
  then show "autoRefreshData_begin s = (s, False)"
    by (simp add: autoRefreshData_begin_def isCurrentlyUpdating_def)
next
  show "cycles (run w [Scheduled, Scheduled]) \<le> cycles w + 1"
    by (simp add: run_def autoRefreshData_begin_def isCurrentlyUpdating_def startUpdate_def)
next
  assume "\<not> isUpdating (serverState w)"
  then show "cycles (run w [Scheduled, Scheduled]) = cycles w + 1"
    by (simp add: run_def autoRefreshData_begin_def isCurrentlyUpdating_def startUpdate_def)
next
  assume a: "undisturbed start as \<and> (\<forall>a\<in>set as. a = Scheduled \<or> a = KeysChanged)"
  have "inFlight start = (if isUpdating (serverState start) then 1 else 0)"
    by (simp add: start_def newServerState_def)
  with a have "cycles (run start as) + inFlight start \<le> cycles start + 1"
    by (intro run_cycles) simp_all
  then show "cycles (run start as) \<le> 1" by (simp add: start_def)
next
  assume "undisturbed start bs"
  moreover have "inFlight start = (if isUpdating (serverState start) then 1 else 0)"
    by (simp add: start_def newServerState_def)
  ultimately
  have "inFlight (run start bs) = (if isUpdating (serverState (run start bs)) then 1 else 0)"
    by (rule run_consistent [rotated])
  then show "inFlight (run start bs) \<le> 1" by simp
qed

theorem autoRefreshData_guard_witness:
  "isUpdating (startUpdate newServerState)
   \<and> autoRefreshData_begin (startUpdate newServerState) = (startUpdate newServerState, False)
   \<and> \<not> isUpdating (serverState start)
   \<and> cycles (run start [Scheduled, Scheduled]) = 1
   \<and> undisturbed start [KeysChanged, Scheduled, Scheduled, Scheduled]
   \<and> cycles (run start [KeysChanged, Scheduled, Scheduled, Scheduled]) \<le> 1
   \<and> undisturbed start [Scheduled, Scheduled, Settled (Inl Thrown), KeysChanged, Scheduled]
   \<and> inFlight (run start [Scheduled, Scheduled, Settled (Inl Thrown), KeysChanged, Scheduled]) \<le> 1"
  using autoRefreshData_guard [of "startUpdate newServerState" start
      "[KeysChanged, Scheduled, Scheduled, Scheduled]"
      "[Scheduled, Scheduled, Settled (Inl Thrown), KeysChanged, Scheduled]"]
  by (simp add: start_def newServerState_def startUpdate_def autoRefreshData_begin_def
      isCurrentlyUpdating_def autoRefreshData_resume_def setError_def clearCache_def)

text \<open>
  A key handler that calls \<open>clearCache\<close> while a refresh waits resets the flag, and the
  next scheduled call begins a second cycle beside the first.
\<close>

theorem autoRefreshData_overlap_counterexample:
  "\<not> inFlight (run start [Scheduled, KeysChanged, Scheduled]) \<le> 1"
  by (simp add: run_def start_def newServerState_def autoRefreshData_begin_def
      isCurrentlyUpdating_def startUpdate_def clearCache_def)

section \<open>Properties of the batch scheduler\<close>

lemma slice_chunk:
  "0 \<le> i \<Longrightarrow> i < int (length xs) \<Longrightarrow> 1 \<le> c
     \<Longrightarrow> slice xs i (i + c) = take (nat c) (drop (nat i) xs)"
  by (auto simp: slice_def Let_def min_def max_def nat_diff_distrib nat_add_distrib)

lemma set_slice: "set (slice xs a b) \<subseteq> set xs"
proof -
  have "set (take m (drop k xs)) \<subseteq> set xs" for m k
    using set_take_subset [of m "drop k xs"] set_drop_subset [of k xs] by blast
  then show ?thesis by (simp add: slice_def Let_def)
qed

lemma promise_all_resolved:
  "\<forall>x\<in>set xs. fst (p x) = Inr (f x) \<Longrightarrow> promise_all (map fst (map p xs)) = Inr (map f xs)"
  by (induction xs) auto

lemma batchLoop_settles:
  assumes "1 \<le> c" and "0 \<le> i"
  shows "\<exists>r tr'. batchLoop items p c d i results tr = Some (r, tr')
           \<and> (\<forall>ts. Parallel ts \<in> set tr' \<longrightarrow> Parallel ts \<in> set tr \<or> length ts \<le> nat c)"
  using assms(2)
proof (induction "nat (int (length items) - i)" arbitrary: i results tr rule: less_induct)
  case less
  show ?case
  proof (cases "i < int (length items)")
    case False
    then show ?thesis by (subst batchLoop.simps) simp
  next
    case True
    let ?batch = "slice items i (i + c)"
    let ?tr1 = "tr @ [Parallel (map snd (map p ?batch))]"
    have len: "length ?batch \<le> nat c"
      using True less.prems assms(1) by (simp add: slice_chunk)
    show ?thesis
    proof (cases "promise_all (map fst (map p ?batch))")
      case (Inl e)
      with True len show ?thesis
        by (subst batchLoop.simps) (auto simp: Let_def)
    next
      case (Inr vs)
      have m: "nat (int (length items) - (i + c)) < nat (int (length items) - i)"
        using True assms(1) by simp
      have nn: "0 \<le> i + c" using less.prems assms(1) by simp
      show ?thesis
      proof (cases "i + c < int (length items)")
        case more: True
        from less.hyps [OF m nn, of "results @ vs" "?tr1 @ [Sleep d]"]
        obtain r tr' where
          run: "batchLoop items p c d (i + c) (results @ vs) (?tr1 @ [Sleep d]) = Some (r, tr')"
          and bound: "\<forall>ts. Parallel ts \<in> set tr'
                 \<longrightarrow> Parallel ts \<in> set (?tr1 @ [Sleep d]) \<or> length ts \<le> nat c"
          by blast
        have "batchLoop items p c d i results tr = Some (r, tr')"
          using True Inr more run by (subst batchLoop.simps) (simp add: Let_def)
        moreover have "\<forall>ts. Parallel ts \<in> set tr' \<longrightarrow> Parallel ts \<in> set tr \<or> length ts \<le> nat c"
          using bound len by auto
        ultimately show ?thesis by blast
      next
        case last: False
        from less.hyps [OF m nn, of "results @ vs" ?tr1]
        obtain r tr' where
          run: "batchLoop items p c d (i + c) (results @ vs) ?tr1 = Some (r, tr')"
          and bound: "\<forall>ts. Parallel ts \<in> set tr'
                 \<longrightarrow> Parallel ts \<in> set ?tr1 \<or> length ts \<le> nat c"
          by blast
        have "batchLoop items p c d i results tr = Some (r, tr')"
          using True Inr last run by (subst batchLoop.simps) (simp add: Let_def)
        moreover have "\<forall>ts. Parallel ts \<in> set tr' \<longrightarrow> Parallel ts \<in> set tr \<or> length ts \<le> nat c"
          using bound len by auto
        ultimately show ?thesis by blast
      qed
    qed
  qed
qed

lemma batchLoop_resolves:
  assumes c: "1 \<le> c" and f: "\<forall>x\<in>set items. fst (p x) = Inr (f x)" and i: "0 \<le> i"
  shows "\<exists>tr'. batchLoop items p c d i results tr
              = Some (Inr (results @ map f (drop (nat i) items)), tr @ tr')
           \<and> paced d tr'
           \<and> int (sleeps tr') = (if i < int (length items) then (int (length items) - i - 1) div c else 0)
           \<and> (tr' = [] \<longleftrightarrow> \<not> i < int (length items))"
  using i
proof (induction "nat (int (length items) - i)" arbitrary: i results tr rule: less_induct)
  case less
  show ?case
  proof (cases "i < int (length items)")
    case False
    then have "batchLoop items p c d i results tr = Some (Inr results, tr)"
      by (subst batchLoop.simps) simp
    with False show ?thesis by (simp add: sleeps_def)
  next
    case True
    let ?batch = "slice items i (i + c)"
    let ?g = "Parallel (map snd (map p ?batch))"
    have batch: "?batch = take (nat c) (drop (nat i) items)"
      using True less.prems c by (simp add: slice_chunk)
    have "\<forall>x\<in>set ?batch. fst (p x) = Inr (f x)"
      using f set_slice [of items i "i + c"] by blast
    then have all: "promise_all (map fst (map p ?batch)) = Inr (map f ?batch)"
      by (rule promise_all_resolved)
    have m: "nat (int (length items) - (i + c)) < nat (int (length items) - i)"
      using True c by simp
    have nn: "0 \<le> i + c" using less.prems c by simp
    have "take (nat c) (drop (nat i) items) @ drop (nat (i + c)) items = drop (nat i) items"
      using less.prems c
      by (metis add.commute append_take_drop_id drop_drop nat_add_distrib zero_le_one order_trans)
    then have res: "(results @ map f ?batch) @ map f (drop (nat (i + c)) items)
          = results @ map f (drop (nat i) items)"
      by (simp add: batch flip: map_append)
    show ?thesis
    proof (cases "i + c < int (length items)")
      case more: True
      from less.hyps [OF m nn, of "results @ map f ?batch" "(tr @ [?g]) @ [Sleep d]"] more
      obtain tr' where
        run: "batchLoop items p c d (i + c) (results @ map f ?batch) ((tr @ [?g]) @ [Sleep d])
               = Some (Inr ((results @ map f ?batch) @ map f (drop (nat (i + c)) items)),
                       ((tr @ [?g]) @ [Sleep d]) @ tr')"
        and p: "paced d tr'"
        and s: "int (sleeps tr') = (int (length items) - (i + c) - 1) div c"
        and ne: "tr' \<noteq> []"
        by auto
      have "batchLoop items p c d i results tr
             = Some (Inr (results @ map f (drop (nat i) items)), tr @ (?g # Sleep d # tr'))"
        using True all more run res by (subst batchLoop.simps) (simp add: Let_def)
      moreover have "paced d (?g # Sleep d # tr')" using p ne by simp
      moreover have "int (sleeps (?g # Sleep d # tr')) = (int (length items) - i - 1) div c"
      proof -
        have "(int (length items) - i - 1) = (int (length items) - (i + c) - 1) + 1 * c"
          by simp
        then have "(int (length items) - i - 1) div c = (int (length items) - (i + c) - 1) div c + 1"
          using c by (metis div_mult_self1 not_one_le_zero add.commute)
        with s show ?thesis by (simp add: sleeps_def)
      qed
      ultimately show ?thesis using True by auto
    next
      case last: False
      from less.hyps [OF m nn, of "results @ map f ?batch" "tr @ [?g]"] last
      obtain tr' where
        run: "batchLoop items p c d (i + c) (results @ map f ?batch) (tr @ [?g])
               = Some (Inr ((results @ map f ?batch) @ map f (drop (nat (i + c)) items)),
                       (tr @ [?g]) @ tr')"
        and e: "tr' = []"
        by auto
      have "batchLoop items p c d i results tr
             = Some (Inr (results @ map f (drop (nat i) items)), tr @ [?g])"
        using True all last run res e by (subst batchLoop.simps) (simp add: Let_def)
      moreover have "int (sleeps [?g]) = (int (length items) - i - 1) div c"
        using True last by (simp add: sleeps_def div_pos_pos_trivial)
      ultimately show ?thesis using True by auto
    qed
  qed
qed

lemma promise_all_resolved_ex:
  "\<forall>x\<in>set xs. \<exists>v. fst (p x) = Inr v \<Longrightarrow> \<exists>vs. promise_all (map fst (map p xs)) = Inr vs"
  by (induction xs) auto

lemma batchLoop_stuck:
  assumes "batchLoop items p c d i results tr = Some y"
  shows "\<not> (c \<le> 0 \<and> i < int (length items) \<and> (\<forall>x\<in>set items. \<exists>v. fst (p x) = Inr v))"
  using assms
proof (induction rule: batchLoop.raw_induct [rotated 1, consumes 1])
  case (1 loop items p c d i results tr y)
  show ?case
  proof
    assume a: "c \<le> 0 \<and> i < int (length items) \<and> (\<forall>x\<in>set items. \<exists>v. fst (p x) = Inr v)"
    then have "\<forall>x\<in>set (slice items i (i + c)). \<exists>v. fst (p x) = Inr v"
      using set_slice [of items i "i + c"] by blast
    then obtain vs where vs: "promise_all (map fst (map p (slice items i (i + c)))) = Inr vs"
      using promise_all_resolved_ex by blast
    from a have lt: "i + c < int (length items)" by simp
    from 1(2) a vs lt obtain tr1 where "loop items p c d (i + c) (results @ vs) tr1 = Some y"
      by (simp add: Let_def)
    from 1(1) [OF this] a lt show False by simp
  qed
qed


lemma ceil_gaps:
  assumes "1 \<le> c" and "xs \<noteq> []"
  shows "nat ((int (length xs) - 0 - 1) div c) = (length xs + nat c - 1) div nat c - 1"
proof -
  define k where "k = nat c"
  have k: "c = int k" and k1: "1 \<le> k"
    using assms(1) by (simp_all add: k_def)
  obtain m where m: "length xs = Suc m" using assms(2) by (cases xs) auto
  have "(Suc m + k - 1) div k = (m + k) div k" by simp
  also have "\<dots> = m div k + 1" using k1 by simp
  finally have "(length xs + nat c - 1) div nat c - 1 = m div k" by (simp add: m k)
  moreover have "nat ((int (length xs) - 0 - 1) div c) = m div k"
    by (simp add: m k flip: zdiv_int)
  ultimately show ?thesis by simp
qed

lemma slice_none: "slice xs i i = []"
  by (simp add: slice_def Let_def)

lemma batchLoop_stuck_zero:
  assumes "batchLoop items p c d i results tr = Some y"
  shows "\<not> (c = 0 \<and> i < int (length items))"
  using assms
proof (induction rule: batchLoop.raw_induct [rotated 1, consumes 1])
  case (1 loop items p c d i results tr y)
  show ?case
  proof
    assume a: "c = 0 \<and> i < int (length items)"
    then have c: "c = 0" and i: "i < int (length items)" by simp_all
    from 1(2) have "loop items p 0 d i results (tr @ [Parallel []] @ [Sleep d]) = Some y"
      unfolding c using i by (simp add: Let_def slice_none)
    from 1(1) [OF this] i show False by simp
  qed
qed

text \<open>
  C4 (as amended). For a concurrency of at least 1, \<open>batchProcess\<close> settles and never has
  more than \<open>concurrency\<close> tasks pending together; when every task resolves, its trace
  is paced (one sleep of \<open>delayMs\<close> between two consecutive chunks, none after the last)
  and holds \<open>ceil(n / concurrency) - 1\<close> sleeps for \<open>n\<close> items. For 25 items and a
  concurrency of 10 that is 2 sleeps, with at most 10 tasks pending together.
\<close>

theorem batchProcess_pacing:
  assumes "1 \<le> concurrency"
  shows "(\<exists>r tr. batchProcess items processor concurrency delayMs = Some (r, tr)
            \<and> (\<forall>ts. Parallel ts \<in> set tr \<longrightarrow> length ts \<le> nat concurrency))
       \<and> ((\<forall>x\<in>set items. fst (processor x) = Inr (f x)) \<longrightarrow>
            (\<exists>tr. batchProcess items processor concurrency delayMs = Some (Inr (map f items), tr)
               \<and> paced delayMs tr
               \<and> sleeps tr = (length items + nat concurrency - 1) div nat concurrency - 1))"
proof (intro conjI impI)
  show "\<exists>r tr. batchProcess items processor concurrency delayMs = Some (r, tr)
            \<and> (\<forall>ts. Parallel ts \<in> set tr \<longrightarrow> length ts \<le> nat concurrency)"
    using batchLoop_settles [OF assms, of 0 items processor delayMs "[]" "[]"]
    by (simp add: batchProcess_def)
next
  assume f: "\<forall>x\<in>set items. fst (processor x) = Inr (f x)"
  from batchLoop_resolves [OF assms f, of 0 delayMs "[]" "[]"]
  obtain tr where run: "batchProcess items processor concurrency delayMs = Some (Inr (map f items), tr)"
    and p: "paced delayMs tr"
    and s: "int (sleeps tr) = (if 0 < int (length items) then (int (length items) - 0 - 1) div concurrency else 0)"
    and e: "tr = [] \<longleftrightarrow> \<not> 0 < int (length items)"
    by (auto simp: batchProcess_def)
  have "sleeps tr = (length items + nat concurrency - 1) div nat concurrency - 1"
  proof (cases "items = []")
    case True
    with s have "sleeps tr = 0" by simp
    moreover have "(nat concurrency - 1) div nat concurrency = 0" using assms by simp
    ultimately show ?thesis using True by simp
  next
    case False
    with s have "sleeps tr = nat ((int (length items) - 0 - 1) div concurrency)" by simp
    then show ?thesis using ceil_gaps [OF assms False] by simp
  qed
  with run p
  show "\<exists>tr. batchProcess items processor concurrency delayMs = Some (Inr (map f items), tr)
               \<and> paced delayMs tr
               \<and> sleeps tr = (length items + nat concurrency - 1) div nat concurrency - 1"
    by blast
qed

theorem batchProcess_pacing_witness:
  "(1::int) \<le> 10
   \<and> (\<exists>r tr. batchProcess [0..<25::nat] instant 10 100 = Some (r, tr)
            \<and> (\<forall>ts. Parallel ts \<in> set tr \<longrightarrow> length ts \<le> 10))
   \<and> (\<exists>tr. batchProcess [0..<25::nat] instant 10 100 = Some (Inr [0..<25], tr)
            \<and> paced 100 tr \<and> sleeps tr = 2)"
proof -
  have c: "(1::int) \<le> 10" by simp
  have f: "\<forall>x\<in>set [0..<25::nat]. fst (instant x) = Inr ((\<lambda>n. n) x)" by (simp add: instant_def)
  from batchProcess_pacing [OF c, of "[0..<25::nat]" instant 100 "\<lambda>n. n"] f
  show ?thesis by (simp add: instant_def)
qed

text \<open>The run for 25 items and a concurrency of 10: three chunks, two sleeps, not three.\<close>

theorem batchProcess_25_by_10_counterexample:
  "batchProcess [0..<25::nat] instant 10 100
     = Some (Inr [0..<25],
             [Parallel (replicate 10 []), Sleep 100,
              Parallel (replicate 10 []), Sleep 100,
              Parallel (replicate 5 [])])
   \<and> sleeps [Parallel (replicate 10 []), Sleep 100,
              Parallel (replicate 10 []), Sleep 100,
              Parallel (replicate 5 [])] \<noteq> 3"
  by code_simp

text \<open>
  C10 (as amended). For a concurrency of at least 1, \<open>batchProcess\<close> settles for every list of items,
  and when every task resolves it resolves to one result per item, in the order of the
  items. For a concurrency of 0 or less and a list that is not empty, with tasks that
  resolve, the call never settles: it neither resolves nor rejects. For a concurrency
  of 0 every chunk is empty, and this holds whatever the tasks do.
\<close>

theorem batchProcess_termination:
  "(1 \<le> concurrency \<longrightarrow> (\<exists>r. batchProcess items processor concurrency delayMs = Some r))
   \<and> (1 \<le> concurrency \<and> (\<forall>x\<in>set items. fst (processor x) = Inr (f x)) \<longrightarrow>
        (\<exists>tr. batchProcess items processor concurrency delayMs = Some (Inr (map f items), tr)))
   \<and> (concurrency \<le> 0 \<and> items \<noteq> [] \<and> (\<forall>x\<in>set items. \<exists>v. fst (processor x) = Inr v) \<longrightarrow>
        batchProcess items processor concurrency delayMs = None)
   \<and> (concurrency = 0 \<and> items \<noteq> [] \<longrightarrow>
        batchProcess items processor concurrency delayMs = None)"
proof (intro conjI impI)
  assume "1 \<le> concurrency"
  from batchLoop_settles [OF this, of 0 items processor delayMs "[]" "[]"]
  show "\<exists>r. batchProcess items processor concurrency delayMs = Some r"
    by (auto simp: batchProcess_def)
next
  assume a: "1 \<le> concurrency \<and> (\<forall>x\<in>set items. fst (processor x) = Inr (f x))"
  then have c: "1 \<le> concurrency" and f: "\<forall>x\<in>set items. fst (processor x) = Inr (f x)"
    by simp_all
  from batchLoop_resolves [OF c f, of 0 delayMs "[]" "[]"]
  show "\<exists>tr. batchProcess items processor concurrency delayMs = Some (Inr (map f items), tr)"
    by (auto simp: batchProcess_def)
next
  assume a: "concurrency \<le> 0 \<and> items \<noteq> [] \<and> (\<forall>x\<in>set items. \<exists>v. fst (processor x) = Inr v)"
  show "batchProcess items processor concurrency delayMs = None"
  proof (cases "batchProcess items processor concurrency delayMs")
    case None
    then show ?thesis .
  next
    case (Some y)
    then have "batchLoop items processor concurrency delayMs 0 [] [] = Some y"
      by (simp add: batchProcess_def)
    from batchLoop_stuck [OF this] a show ?thesis by simp
  qed
next
  assume a: "concurrency = 0 \<and> items \<noteq> []"
  show "batchProcess items processor concurrency delayMs = None"
  proof (cases "batchProcess items processor concurrency delayMs")
    case None
    then show ?thesis .
  next
    case (Some y)
    then have "batchLoop items processor concurrency delayMs 0 [] [] = Some y"
      by (simp add: batchProcess_def)
    from batchLoop_stuck_zero [OF this] a show ?thesis by simp
  qed
qed

theorem batchProcess_termination_witness:
  "(1::int) \<le> 10
   \<and> (\<exists>tr. batchProcess [0..<25::nat] instant 10 100 = Some (Inr [0..<25], tr))
   \<and> (0::int) \<le> 0 \<and> [0..<25::nat] \<noteq> []
   \<and> batchProcess [0..<25::nat] instant 0 100 = None
   \<and> batchProcess [0..<25::nat] instant (- 3) 100 = None"
  using batchProcess_termination [of 10 "[0..<25::nat]" instant 100 "\<lambda>n. n"]
    batchProcess_termination [of 0 "[0..<25::nat]" instant 100 "\<lambda>n. n"]
    batchProcess_termination [of "- 3" "[0..<25::nat]" instant 100 "\<lambda>n. n"]
  by (simp add: instant_def)

text \<open>
  A task that rejects makes the call reject: for a concurrency of \<open>- 3\<close> the first chunk is
  \<open>items.slice(0, - 3)\<close>, which is not empty for four items, and for a concurrency of 10
  no result is returned.
\<close>

theorem batchProcess_rejecting_counterexample:
  "batchProcess [0, 1, 2, 3 :: nat] failing (- 3) 100 = Some (Inl Thrown, [Parallel [[]]])
   \<and> batchProcess [0, 1, 2, 3 :: nat] failing 10 100
       = Some (Inl Thrown, [Parallel [[], [], [], []]])"
  by code_simp

section \<open>Properties of the usage client\<close>

lemma fetch_unfold:
  "fetchApiKeyData toISOString net id' key isLoggedIn retryCount =
     (case attempt toISOString (net retryCount) id' (getDisplayKey key isLoggedIn) retryCount 2 of
        Inl e \<Rightarrow> (Inr (ApiErrorData id' (getDisplayKey key isLoggedIn) ''Failed to fetch''), [Request key])
      | Inr (Return r) \<Rightarrow> (Inr r, [Request key])
      | Inr (RetryAfter d) \<Rightarrow>
          (fst (fetchApiKeyData toISOString net id' key isLoggedIn (retryCount + 1)),
           Request key # Sleep d
             # snd (fetchApiKeyData toISOString net id' key isLoggedIn (retryCount + 1))))"
  by (subst fetchApiKeyData.simps)
     (simp add: Let_def split: prod.splits sum.splits decision.splits)


lemma attempt_Return_id:
  "attempt toISOString outcome id' displayKey retryCount maxRetries = Inr (Return r)
   \<Longrightarrow> id_r r = id' \<and> key_r r = displayKey"
  by (auto simp: attempt_def split: fetch_outcome.splits body.splits option.splits if_splits)

lemma fetch_resolves:
  "\<exists>r. fst (fetchApiKeyData toISOString net id' key isLoggedIn retryCount) = Inr r
       \<and> id_r r = id' \<and> key_r r = getDisplayKey key isLoggedIn"
proof (induction toISOString net id' key isLoggedIn retryCount rule: fetchApiKeyData.induct)
  case (1 toISOString net id' key isLoggedIn retryCount)
  let ?a = "attempt toISOString (net retryCount) id' (getDisplayKey key isLoggedIn) retryCount 2"
  show ?case
  proof (cases ?a)
    case (Inl e)
    then show ?thesis by (subst fetch_unfold) simp
  next
    case (Inr dec)
    show ?thesis
    proof (cases dec)
      case (Return r)
      with Inr have a: "?a = Inr (Return r)" by simp
      from attempt_Return_id [OF a] a show ?thesis by (subst fetch_unfold) simp
    next
      case (RetryAfter d)
      with Inr have a: "?a = Inr (RetryAfter d)" by simp
      from 1 [OF refl refl Inr RetryAfter] a show ?thesis by (subst fetch_unfold) simp
    qed
  qed
qed

lemma fetch_requests:
  "retryCount \<le> 2 \<Longrightarrow>
   requests (snd (fetchApiKeyData toISOString net id' key isLoggedIn retryCount)) \<le> 3 - retryCount"
proof (induction toISOString net id' key isLoggedIn retryCount rule: fetchApiKeyData.induct)
  case (1 toISOString net id' key isLoggedIn retryCount)
  let ?a = "attempt toISOString (net retryCount) id' (getDisplayKey key isLoggedIn) retryCount 2"
  show ?case
  proof (cases ?a)
    case (Inl e)
    with 1(2) show ?thesis by (subst fetch_unfold) (simp add: requests_def)
  next
    case (Inr dec)
    show ?thesis
    proof (cases dec)
      case (Return r)
      with Inr 1(2) show ?thesis by (subst fetch_unfold) (simp add: requests_def)
    next
      case (RetryAfter d)
      with Inr have a: "?a = Inr (RetryAfter d)" by simp
      then have lt: "retryCount < 2" by (rule attempt_RetryAfter)
      then have "retryCount + 1 \<le> 2" by simp
      from 1(1) [OF refl refl Inr RetryAfter this]
      have "requests (snd (fetchApiKeyData toISOString net id' key isLoggedIn (retryCount + 1)))
              \<le> 3 - (retryCount + 1)" .
      with a lt show ?thesis by (subst fetch_unfold) (simp add: requests_def)
    qed
  qed
qed

lemma fetch_401_retry:
  assumes "net n = Response 401 b" and "n < 2"
  shows "fetchApiKeyData toISOString net id' key isLoggedIn n
           = (fst (fetchApiKeyData toISOString net id' key isLoggedIn (n + 1)),
              Request key # Sleep ((int n + 1) * 1000)
                # snd (fetchApiKeyData toISOString net id' key isLoggedIn (n + 1)))"
  using assms by (subst fetch_unfold) (simp add: attempt_def ok_def)

lemma fetch_401_give_up:
  assumes "net n = Response 401 b" and "2 \<le> n"
  shows "fetchApiKeyData toISOString net id' key isLoggedIn n
           = (Inr (ApiErrorData id' (getDisplayKey key isLoggedIn) (''HTTP '' @ decimal 401)), [Request key])"
  using assms by (subst fetch_unfold) (simp add: attempt_def ok_def)

lemma fetch_other_status:
  assumes "net n = Response status b" and "\<not> ok status" and "status \<noteq> 401"
  shows "fetchApiKeyData toISOString net id' key isLoggedIn n
           = (Inr (ApiErrorData id' (getDisplayKey key isLoggedIn) (''HTTP '' @ decimal status)), [Request key])"
  using assms by (subst fetch_unfold) (simp add: attempt_def)

lemma fetch_bad_shape:
  assumes "net n = Response status (JsonValue usage)" and "ok status"
    and "Option.bind usage standard = None"
  shows "fetchApiKeyData toISOString net id' key isLoggedIn n
           = (Inr (ApiErrorData id' (getDisplayKey key isLoggedIn) ''Invalid API response''), [Request key])"
  using assms by (subst fetch_unfold) (auto simp: attempt_def split: option.splits)

lemma fetch_failure:
  assumes "net n = Rejected e
           \<or> (\<exists>status. ok status \<and> (net n = Response status (NotJson e) \<or> net n = Response status JsonNull))"
  shows "fetchApiKeyData toISOString net id' key isLoggedIn n
           = (Inr (ApiErrorData id' (getDisplayKey key isLoggedIn) ''Failed to fetch''), [Request key])"
  using assms by (subst fetch_unfold) (auto simp: attempt_def)

lemma fetch_success:
  assumes "net n = Response status (JsonValue (Some u))" and "ok status" and "standard u = Some std"
  shows "fetchApiKeyData toISOString net id' key isLoggedIn n
           = (Inr (ApiUsageData id' (getDisplayKey key isLoggedIn)
                 (formatDate toISOString (startDate_u u)) (formatDate toISOString (endDate_u u))
                 (or_zero (orgTotalTokensUsed_s std)) (or_zero (totalAllowance_s std))
                 (or_zero (usedRatio_s std))),
              [Request key])"
  using assms by (subst fetch_unfold) (simp add: attempt_def)

lemma decimal_401: "decimal 401 = ''401''"
  by code_simp


lemma decimal_500: "decimal 500 = ''500''"
  by code_simp

text \<open>
  C5. \<open>fetchApiKeyData\<close> never rejects, and makes at most 3 requests. A 401 at
  \<open>retryCount = n < 2\<close> is followed by a sleep of \<open>(n + 1) * 1000\<close> ms and another
  attempt: with 401 on attempts 1 and 2 and a 200 carrying \<open>usage.standard\<close> on attempt 3
  the result is a usage record, after sleeps of 1000 and 2000 ms; with a third 401 it is
  the error record \<open>HTTP 401\<close>. Any other status outside 2xx, a 2xx body without
  \<open>usage.standard\<close> (a value without it, \<open>null\<close>, or text that is not JSON) and a failed
  request give an error record at once: one request, no sleep.
\<close>

theorem fetchApiKeyData_retry_policy:
  "(\<exists>r. fst (fetchApiKeyData toISOString net id' key isLoggedIn n) = Inr r)
   \<and> requests (snd (fetchApiKeyData toISOString net id' key isLoggedIn 0)) \<le> 3
   \<and> (net n = Response 401 b \<and> n < 2 \<longrightarrow>
        fetchApiKeyData toISOString net id' key isLoggedIn n
          = (fst (fetchApiKeyData toISOString net id' key isLoggedIn (n + 1)),
             Request key # Sleep ((int n + 1) * 1000)
               # snd (fetchApiKeyData toISOString net id' key isLoggedIn (n + 1))))
   \<and> (net 0 = Response 401 b0 \<and> net 1 = Response 401 b1
        \<and> net 2 = Response 200 (JsonValue (Some u)) \<and> standard u = Some std \<longrightarrow>
        fetchApiKeyData toISOString net id' key isLoggedIn 0
          = (Inr (ApiUsageData id' (getDisplayKey key isLoggedIn)
                (formatDate toISOString (startDate_u u)) (formatDate toISOString (endDate_u u))
                (or_zero (orgTotalTokensUsed_s std)) (or_zero (totalAllowance_s std))
                (or_zero (usedRatio_s std))),
             [Request key, Sleep 1000, Request key, Sleep 2000, Request key]))
   \<and> (net 0 = Response 401 b0 \<and> net 1 = Response 401 b1 \<and> net 2 = Response 401 b2 \<longrightarrow>
        fetchApiKeyData toISOString net id' key isLoggedIn 0
          = (Inr (ApiErrorData id' (getDisplayKey key isLoggedIn) ''HTTP 401''),
             [Request key, Sleep 1000, Request key, Sleep 2000, Request key]))
   \<and> (net n = Response status b \<and> \<not> ok status \<and> status \<noteq> 401 \<longrightarrow>
        fetchApiKeyData toISOString net id' key isLoggedIn n
          = (Inr (ApiErrorData id' (getDisplayKey key isLoggedIn) (''HTTP '' @ decimal status)),
             [Request key]))
   \<and> (net n = Response status (JsonValue usage) \<and> ok status
        \<and> Option.bind usage standard = None \<longrightarrow>
        fetchApiKeyData toISOString net id' key isLoggedIn n
          = (Inr (ApiErrorData id' (getDisplayKey key isLoggedIn) ''Invalid API response''),
             [Request key]))
   \<and> (net n = Rejected e \<longrightarrow>
        fetchApiKeyData toISOString net id' key isLoggedIn n
          = (Inr (ApiErrorData id' (getDisplayKey key isLoggedIn) ''Failed to fetch''),
             [Request key]))
   \<and> (net n = Response status (NotJson e) \<and> ok status \<longrightarrow>
        fetchApiKeyData toISOString net id' key isLoggedIn n
          = (Inr (ApiErrorData id' (getDisplayKey key isLoggedIn) ''Failed to fetch''),
             [Request key]))
   \<and> (net n = Response status JsonNull \<and> ok status \<longrightarrow>
        fetchApiKeyData toISOString net id' key isLoggedIn n
          = (Inr (ApiErrorData id' (getDisplayKey key isLoggedIn) ''Failed to fetch''),
             [Request key]))"
proof (intro conjI impI)
  show "\<exists>r. fst (fetchApiKeyData toISOString net id' key isLoggedIn n) = Inr r"
    using fetch_resolves [of toISOString net id' key isLoggedIn n] by blast
next
  show "requests (snd (fetchApiKeyData toISOString net id' key isLoggedIn 0)) \<le> 3"
    using fetch_requests [of 0 toISOString net id' key isLoggedIn] by simp
next
  assume "net n = Response 401 b \<and> n < 2"
  then show "fetchApiKeyData toISOString net id' key isLoggedIn n
          = (fst (fetchApiKeyData toISOString net id' key isLoggedIn (n + 1)),
             Request key # Sleep ((int n + 1) * 1000)
               # snd (fetchApiKeyData toISOString net id' key isLoggedIn (n + 1)))"
    using fetch_401_retry [of net n b toISOString id' key isLoggedIn] by simp
next
  assume a: "net 0 = Response 401 b0 \<and> net 1 = Response 401 b1
        \<and> net 2 = Response 200 (JsonValue (Some u)) \<and> standard u = Some std"
  have "ok 200" by (simp add: ok_def)
  with a show "fetchApiKeyData toISOString net id' key isLoggedIn 0
          = (Inr (ApiUsageData id' (getDisplayKey key isLoggedIn)
                (formatDate toISOString (startDate_u u)) (formatDate toISOString (endDate_u u))
                (or_zero (orgTotalTokensUsed_s std)) (or_zero (totalAllowance_s std))
                (or_zero (usedRatio_s std))),
             [Request key, Sleep 1000, Request key, Sleep 2000, Request key])"
    using fetch_401_retry [of net 0 b0 toISOString id' key isLoggedIn]
      fetch_401_retry [of net 1 b1 toISOString id' key isLoggedIn]
      fetch_success [of net 2 200 u std toISOString id' key isLoggedIn]
    by (simp add: numeral_2_eq_2)
next
  assume a: "net 0 = Response 401 b0 \<and> net 1 = Response 401 b1 \<and> net 2 = Response 401 b2"
  then show "fetchApiKeyData toISOString net id' key isLoggedIn 0
          = (Inr (ApiErrorData id' (getDisplayKey key isLoggedIn) ''HTTP 401''),
             [Request key, Sleep 1000, Request key, Sleep 2000, Request key])"
    using fetch_401_retry [of net 0 b0 toISOString id' key isLoggedIn]
      fetch_401_retry [of net 1 b1 toISOString id' key isLoggedIn]
      fetch_401_give_up [of net 2 b2 toISOString id' key isLoggedIn]
    by (simp add: decimal_401 numeral_2_eq_2)
next
  assume "net n = Response status b \<and> \<not> ok status \<and> status \<noteq> 401"
  then show "fetchApiKeyData toISOString net id' key isLoggedIn n
          = (Inr (ApiErrorData id' (getDisplayKey key isLoggedIn) (''HTTP '' @ decimal status)),
             [Request key])"
    using fetch_other_status [of net n status b toISOString id' key isLoggedIn] by simp
next
  assume "net n = Response status (JsonValue usage) \<and> ok status
        \<and> Option.bind usage standard = None"
  then show "fetchApiKeyData toISOString net id' key isLoggedIn n
          = (Inr (ApiErrorData id' (getDisplayKey key isLoggedIn) ''Invalid API response''),
             [Request key])"
    using fetch_bad_shape [of net n status usage toISOString id' key isLoggedIn] by simp
next
  assume "net n = Rejected e"
  then show "fetchApiKeyData toISOString net id' key isLoggedIn n
          = (Inr (ApiErrorData id' (getDisplayKey key isLoggedIn) ''Failed to fetch''),
             [Request key])"
    using fetch_failure [of net n e toISOString id' key isLoggedIn] by simp
next
  assume "net n = Response status (NotJson e) \<and> ok status"
  then show "fetchApiKeyData toISOString net id' key isLoggedIn n
          = (Inr (ApiErrorData id' (getDisplayKey key isLoggedIn) ''Failed to fetch''),
             [Request key])"
    using fetch_failure [of net n e toISOString id' key isLoggedIn] by blast
next
  assume "net n = Response status JsonNull \<and> ok status"
  then show "fetchApiKeyData toISOString net id' key isLoggedIn n
          = (Inr (ApiErrorData id' (getDisplayKey key isLoggedIn) ''Failed to fetch''),
             [Request key])"
    using fetch_failure [of net n e toISOString id' key isLoggedIn] by blast
qed

theorem fetchApiKeyData_retry_policy_witness:
  "fetchApiKeyData Map.empty
       (answers [Response 401 JsonNull, Response 401 JsonNull,
                 Response 200 (JsonValue (Some (usage_of 7 10)))])
       ''key-1'' ''fk-ABCDEFGHIJKL'' False 0
     = (Inr (ApiUsageData ''key-1'' ''fk-A...IJKL'' ''N/A'' ''N/A'' (Fin 7) (Fin 10) (Fin 0)),
        [Request ''fk-ABCDEFGHIJKL'', Sleep 1000, Request ''fk-ABCDEFGHIJKL'', Sleep 2000,
         Request ''fk-ABCDEFGHIJKL''])
   \<and> fetchApiKeyData Map.empty
       (answers [Response 401 JsonNull, Response 401 JsonNull, Response 401 JsonNull])
       ''key-1'' ''fk-ABCDEFGHIJKL'' False 0
     = (Inr (ApiErrorData ''key-1'' ''fk-A...IJKL'' ''HTTP 401''),
        [Request ''fk-ABCDEFGHIJKL'', Sleep 1000, Request ''fk-ABCDEFGHIJKL'', Sleep 2000,
         Request ''fk-ABCDEFGHIJKL''])
   \<and> fetchApiKeyData Map.empty (answers [Response 500 JsonNull]) ''key-1'' ''fk-ABCDEFGHIJKL'' False 0
     = (Inr (ApiErrorData ''key-1'' ''fk-A...IJKL'' ''HTTP 500''), [Request ''fk-ABCDEFGHIJKL''])
   \<and> fetchApiKeyData Map.empty (answers [Response 200 (JsonValue None)]) ''key-1'' ''fk-ABCDEFGHIJKL'' False 0
     = (Inr (ApiErrorData ''key-1'' ''fk-A...IJKL'' ''Invalid API response''), [Request ''fk-ABCDEFGHIJKL''])
   \<and> fetchApiKeyData Map.empty (answers []) ''key-1'' ''fk-ABCDEFGHIJKL'' False 0
     = (Inr (ApiErrorData ''key-1'' ''fk-A...IJKL'' ''Failed to fetch''), [Request ''fk-ABCDEFGHIJKL''])
   \<and> fetchApiKeyData Map.empty (answers [Response 200 (NotJson Thrown)]) ''key-1'' ''fk-ABCDEFGHIJKL'' False 0
     = (Inr (ApiErrorData ''key-1'' ''fk-A...IJKL'' ''Failed to fetch''), [Request ''fk-ABCDEFGHIJKL''])
   \<and> fetchApiKeyData Map.empty (answers [Response 200 JsonNull]) ''key-1'' ''fk-ABCDEFGHIJKL'' False 0
     = (Inr (ApiErrorData ''key-1'' ''fk-A...IJKL'' ''Failed to fetch''), [Request ''fk-ABCDEFGHIJKL''])"
proof -
  have mask: "getDisplayKey ''fk-ABCDEFGHIJKL'' False = ''fk-A...IJKL''"
    by (simp add: getDisplayKey_def maskApiKey_def substring_from_def substring_def
        KEY_MASK_PREFIX_LENGTH_def KEY_MASK_SUFFIX_LENGTH_def Let_def)
  note t = fetchApiKeyData_retry_policy [where toISOString = Map.empty and id' = "''key-1''"
      and key = "''fk-ABCDEFGHIJKL''" and isLoggedIn = False and n = 0]
  show ?thesis
    using
      t [where net = "answers [Response 401 JsonNull, Response 401 JsonNull,
                 Response 200 (JsonValue (Some (usage_of 7 10)))]"
          and ?b0.0 = JsonNull and ?b1.0 = JsonNull and u = "usage_of 7 10"
          and std = "\<lparr>orgTotalTokensUsed_s = Some (Fin 7), totalAllowance_s = Some (Fin 10),
                       usedRatio_s = None\<rparr>"]
      t [where net = "answers [Response 401 JsonNull, Response 401 JsonNull, Response 401 JsonNull]"
          and ?b0.0 = JsonNull and ?b1.0 = JsonNull and ?b2.0 = JsonNull]
      t [where net = "answers [Response 500 JsonNull]" and status = 500 and b = JsonNull]
      t [where net = "answers [Response 200 (JsonValue None)]" and status = 200 and usage = None]
      t [where net = "answers []" and e = Thrown]
      t [where net = "answers [Response 200 (NotJson Thrown)]" and status = 200 and e = Thrown]
      t [where net = "answers [Response 200 JsonNull]" and status = 200]
    by (simp add: mask answers_def usage_of_def ok_def or_zero_def formatDate_def decimal_500)
qed

section \<open>Properties of numbers\<close>

lemma int_pow_bounds:
  fixes p :: int
  assumes "0 < p"
  shows "(2::rat) powi (bitlen p - 1) \<le> of_int p" and "of_int p < (2::rat) powi (bitlen p)"
proof -
  from bitlen_bounds [OF assms]
  have lo: "2 ^ nat (bitlen p - 1) \<le> p" and hi: "p < 2 ^ nat (bitlen p)" by simp_all
  have b1: "1 \<le> bitlen p" using assms by (simp add: bitlen_alt_def)
  have "(of_int (2 ^ nat (bitlen p - 1)) :: rat) \<le> of_int p" using lo by (simp only: of_int_le_iff)
  then show "(2::rat) powi (bitlen p - 1) \<le> of_int p"
    using b1 by (simp add: power_int_def)
  have "(of_int p :: rat) < of_int (2 ^ nat (bitlen p))" using hi by (simp only: of_int_less_iff)
  then show "of_int p < (2::rat) powi (bitlen p)"
    using b1 by (simp add: power_int_def)
qed

lemma ilog2_bounds:
  assumes "0 < a"
  shows "2 powi (ilog2 a) \<le> a" and "a < 2 powi (ilog2 a + 1)"
proof -
  obtain p d where q: "quotient_of a = (p, d)" by (cases "quotient_of a")
  then have d: "0 < d" and a: "a = of_int p / of_int d"
    using quotient_of_denom_pos quotient_of_div by auto
  have p: "0 < p" using assms a d by (simp add: zero_less_divide_iff)
  let ?k = "bitlen p - bitlen d"
  note P = int_pow_bounds [OF p] and D = int_pow_bounds [OF d]
  have dpos: "(0::rat) < of_int d" using d by simp
  have lo: "(2::rat) powi (?k - 1) < a"
  proof -
    have "(2::rat) powi (?k - 1) = 2 powi (bitlen p - 1) / 2 powi (bitlen d)"
      by (simp add: power_int_diff)
    also have "\<dots> \<le> of_int p / 2 powi (bitlen d)"
      using P(1) by (simp add: divide_right_mono)
    also have "\<dots> < of_int p / of_int d"
      using D(2) p dpos by (simp add: divide_strict_left_mono)
    finally show ?thesis by (simp add: a)
  qed
  have hi: "a < (2::rat) powi (?k + 1)"
  proof -
    have "a = of_int p / of_int d" by (rule a)
    also have "\<dots> < 2 powi (bitlen p) / of_int d"
      using P(2) dpos by (simp add: divide_strict_right_mono)
    also have "\<dots> \<le> 2 powi (bitlen p) / 2 powi (bitlen d - 1)"
      using D(1) d by (intro divide_left_mono) (simp_all add: zero_less_mult_iff zero_less_power_int)
    also have "\<dots> = 2 powi (?k + 1)"
      by (simp add: power_int_diff power_int_add)
    finally show ?thesis .
  qed
  show "2 powi (ilog2 a) \<le> a"
    using lo by (auto simp: ilog2_def q Let_def)
  show "a < 2 powi (ilog2 a + 1)"
    using hi by (auto simp: ilog2_def q Let_def)
qed


lemma pow2_less_cancel:
  assumes "(2::rat) powi m < 2 powi n"
  shows "m < n"
proof (rule ccontr)
  assume "\<not> m < n"
  then have "n \<le> m" by simp
  then have "(2::rat) powi n \<le> 2 powi m" by (rule power_int_increasing) simp
  with assms show False by simp
qed


lemma rhe_of_int: "round_half_even (of_int n) = n"
  by (simp add: round_half_even_def)







lemma rnd_exact:
  assumes "\<bar>n\<bar> < 2 ^ 53"
  shows "rnd (of_int n) = Fin (of_int n)"
proof (cases "n = 0")
  case True
  then show ?thesis by (simp add: rnd_def)
next
  case False
  let ?a = "\<bar>of_int n :: rat\<bar>"
  have a1: "1 \<le> ?a" using False by (simp flip: of_int_abs)
  then have a0: "0 < ?a" by linarith
  have "(2::rat) powi 0 < 2 powi (ilog2 ?a + 1)"
    using a1 ilog2_bounds(2) [OF a0] by simp
  then have "0 < ilog2 ?a + 1" by (rule pow2_less_cancel)
  then have e0: "0 \<le> ilog2 ?a" by simp
  have "?a < 2 ^ 53" using assms by (simp flip: of_int_abs add: of_int_less_numeral_power_cancel_iff)
  with ilog2_bounds(1) [OF a0] have "(2::rat) powi (ilog2 ?a) < 2 powi 53" by simp
  then have "ilog2 ?a < 53" by (rule pow2_less_cancel)
  then have e52: "ilog2 ?a \<le> 52" by simp
  let ?q = "(2::rat) powi (ilog2 ?a - 52)"
  have "(2::rat) powi (52 - ilog2 ?a) = 2 ^ nat (52 - ilog2 ?a)"
    using e52 by (simp add: power_int_def)
  moreover have "?q = inverse (2 powi (52 - ilog2 ?a))"
    using power_int_minus [of "2::rat" "52 - ilog2 ?a"] by simp
  ultimately have "?q = inverse (2 ^ nat (52 - ilog2 ?a))"
    by simp
  then have "of_int n / ?q = of_int (n * 2 ^ nat (52 - ilog2 ?a))"
    by (simp add: divide_inverse)
  then have "round_half_even (of_int n / ?q) = n * 2 ^ nat (52 - ilog2 ?a)"
    by (simp only: rhe_of_int)
  then have y: "of_int (round_half_even (of_int n / ?q)) * ?q = of_int n"
    using \<open>?q = inverse (2 ^ nat (52 - ilog2 ?a))\<close> by simp
  have "?a < 2 ^ 1024" using \<open>?a < 2 ^ 53\<close>
    by (rule less_trans) simp
  then show ?thesis
    using False e0 y by (simp add: rnd_def Let_def max_def del: power_int_diff)
qed










section \<open>Properties of the aggregation\<close>


















lemma totals_foldl:
  "foldl (\<lambda>acc res.
      \<lparr>total_orgTotalTokensUsed = js_add (total_orgTotalTokensUsed acc) (orgTotalTokensUsed res),
       total_totalAllowance = js_add (total_totalAllowance acc) (totalAllowance res),
       totalRemaining =
         js_add (totalRemaining acc) (max_0 (js_sub (totalAllowance res) (orgTotalTokensUsed res)))\<rparr>)
     acc xs
   = \<lparr>total_orgTotalTokensUsed = foldl js_add (total_orgTotalTokensUsed acc) (map orgTotalTokensUsed xs),
      total_totalAllowance = foldl js_add (total_totalAllowance acc) (map totalAllowance xs),
      totalRemaining = foldl js_add (totalRemaining acc) (map remaining xs)\<rparr>"
  by (induction xs arbitrary: acc) (simp_all add: remaining_def)

lemma totals_aggregateResults:
  "totals (aggregateResults now keyPairs results)
     = \<lparr>total_orgTotalTokensUsed =
          foldl js_add (Fin 0) (map orgTotalTokensUsed (filter isApiUsageData results)),
        total_totalAllowance =
          foldl js_add (Fin 0) (map totalAllowance (filter isApiUsageData results)),
        totalRemaining =
          foldl js_add (Fin 0) (map remaining (filter isApiUsageData results))\<rparr>"
  by (simp add: aggregateResults_def Let_def totals_foldl emptyTotals_def)

lemma js_add_exact:
  "\<bar>m + n\<bar> < 2 ^ 53 \<Longrightarrow> js_add (Fin (of_int m)) (Fin (of_int n)) = Fin (of_int (m + n))"
  using rnd_exact [of "m + n"] by simp

lemma foldl_js_add_exact:
  assumes "\<forall>n\<in>set ns. 0 \<le> n" and "0 \<le> acc" and "acc + sum_list ns < 2 ^ 53"
  shows "foldl js_add (Fin (of_int acc)) (map (\<lambda>n. Fin (of_int n)) ns)
           = Fin (of_int (acc + sum_list ns))"
  using assms
proof (induction ns arbitrary: acc)
  case Nil
  then show ?case by simp
next
  case (Cons n ns)
  have rest: "0 \<le> sum_list ns" using Cons.prems(1) by (simp add: sum_list_nonneg)
  have n: "0 \<le> n" using Cons.prems(1) by simp
  have "\<bar>acc + n\<bar> < 2 ^ 53" using Cons.prems(2,3) rest n by simp
  then have step: "js_add (Fin (of_int acc)) (Fin (of_int n)) = Fin (of_int (acc + n))"
    by (rule js_add_exact)
  have "foldl js_add (Fin (of_int (acc + n))) (map (\<lambda>n. Fin (of_int n)) ns)
          = Fin (of_int ((acc + n) + sum_list ns))"
    using Cons.prems n by (intro Cons.IH) (simp_all add: add.assoc)
  with step show ?case by (simp add: add.assoc)
qed

lemma remaining_exact:
  assumes "orgTotalTokensUsed r = Fin (of_int u)" and "totalAllowance r = Fin (of_int a)"
    and "\<bar>a - u\<bar> < 2 ^ 53"
  shows "remaining r = Fin (of_int (max 0 (a - u)))"
proof -
  have "js_sub (Fin (of_int a)) (Fin (of_int u)) = Fin (of_int (a - u))"
    using rnd_exact [OF assms(3)] by (simp add: js_sub_def)
  then show ?thesis by (simp add: remaining_def assms(1,2) max_def)
qed


lemma remaining_safe_list:
  assumes "map orgTotalTokensUsed vs = map (\<lambda>n. Fin (of_int n)) us"
    and "map totalAllowance vs = map (\<lambda>n. Fin (of_int n)) al"
    and "\<forall>n\<in>set us. 0 \<le> n \<and> n < 2 ^ 53" and "\<forall>n\<in>set al. 0 \<le> n \<and> n < 2 ^ 53"
  shows "map remaining vs = map (\<lambda>n. Fin (of_int n)) (map2 (\<lambda>a u. max 0 (a - u)) al us)"
  using assms
proof (induction vs arbitrary: us al)
  case Nil
  then show ?case by simp
next
  case (Cons v vs)
  from Cons.prems(1) obtain u us' where us: "us = u # us'" by (cases us) auto
  from Cons.prems(2) obtain a al' where al: "al = a # al'" by (cases al) auto
  have "\<bar>a - u\<bar> < 2 ^ 53" using Cons.prems(3,4) by (simp add: us al) linarith
  then have "remaining v = Fin (of_int (max 0 (a - u)))"
    using Cons.prems(1,2) by (intro remaining_exact) (simp_all add: us al)
  moreover have "map remaining vs = map (\<lambda>n. Fin (of_int n)) (map2 (\<lambda>a u. max 0 (a - u)) al' us')"
    using Cons.prems by (intro Cons.IH) (simp_all add: us al)
  ultimately show ?case by (simp add: us al)
qed

lemma sum_remaining_le:
  assumes "\<forall>n\<in>set us. (0::int) \<le> n" and "\<forall>n\<in>set al. (0::int) \<le> n"
  shows "sum_list (map2 (\<lambda>a u. max 0 (a - u)) al us) \<le> sum_list al"
  using assms
proof (induction al arbitrary: us)
  case Nil
  then show ?case by simp
next
  case (Cons a al)
  show ?case
  proof (cases us)
    case Nil
    with Cons.prems show ?thesis by (simp add: sum_list_nonneg)
  next
    case (Cons u us')
    have "sum_list (map2 (\<lambda>a u. max 0 (a - u)) al us') \<le> sum_list al"
      using Cons.prems local.Cons by (intro Cons.IH) simp_all
    moreover have "max 0 (a - u) \<le> a" using Cons.prems local.Cons by simp
    ultimately show ?thesis using local.Cons by (simp add: max_def)
  qed
qed

lemma totals_safe:
  assumes used: "map orgTotalTokensUsed (filter isApiUsageData results) = map (\<lambda>n. Fin (of_int n)) us"
    and allow: "map totalAllowance (filter isApiUsageData results) = map (\<lambda>n. Fin (of_int n)) al"
    and us: "\<forall>n\<in>set us. 0 \<le> n" and al: "\<forall>n\<in>set al. 0 \<le> n"
    and su: "sum_list us < 2 ^ 53" and sa: "sum_list al < 2 ^ 53"
  shows "totals (aggregateResults now keyPairs results)
     = \<lparr>total_orgTotalTokensUsed = Fin (of_int (sum_list us)),
        total_totalAllowance = Fin (of_int (sum_list al)),
        totalRemaining = Fin (of_int (sum_list (map2 (\<lambda>a u. max 0 (a - u)) al us)))\<rparr>"
proof -
  let ?rem = "map2 (\<lambda>a u. max 0 (a - u)) al us"
  have bu: "\<forall>n\<in>set us. 0 \<le> n \<and> n < 2 ^ 53"
    using us su member_le_sum_list [of _ us] by (metis us le_less_trans)
  have ba: "\<forall>n\<in>set al. 0 \<le> n \<and> n < 2 ^ 53"
    using al sa member_le_sum_list [of _ al] by (metis al le_less_trans)
  have r: "map remaining (filter isApiUsageData results) = map (\<lambda>n. Fin (of_int n)) ?rem"
    using used allow bu ba by (rule remaining_safe_list)
  have rn: "\<forall>n\<in>set ?rem. 0 \<le> n" by (auto simp: set_zip)
  have sr: "sum_list ?rem < 2 ^ 53" using sum_remaining_le [OF us al] sa by simp
  have F: "foldl js_add (Fin 0) (map (\<lambda>n. Fin (of_int n)) ns) = Fin (of_int (sum_list ns))"
    if "\<forall>n\<in>set ns. 0 \<le> n" and "sum_list ns < 2 ^ 53" for ns
    using foldl_js_add_exact [of ns 0] that by simp
  note f1 = F [OF us su] and f2 = F [OF al sa] and f3 = F [OF rn sr]
  show ?thesis
    by (simp only: totals_aggregateResults used allow r f1 f2 f3)
qed


lemma getAggregatedData_resolves:
  "\<exists>results.
      getAggregatedData toISOString net now (Inr keyPairs) isLoggedIn
        = Some (Inr (aggregateResults now keyPairs results))
    \<and> map Inr results
        = map (\<lambda>kp. fst (fetchApiKeyData toISOString (net kp) (id_k kp) (key_k kp) isLoggedIn 0)) keyPairs
    \<and> map id_r results = map id_k keyPairs"
proof (cases "keyPairs = []")
  case True
  have "aggregateResults now [] [] = emptyResponse now"
    by (simp add: aggregateResults_def emptyResponse_def array_sort_def)
  with True show ?thesis by (simp add: getAggregatedData_def)
next
  case False
  let ?p = "\<lambda>kp. fetchApiKeyData toISOString (net kp) (id_k kp) (key_k kp) isLoggedIn 0"
  define f where "f = (\<lambda>kp. projr (fst (?p kp)))"
  have each: "fst (?p kp) = Inr (f kp) \<and> id_r (f kp) = id_k kp" for kp
    using fetch_resolves [of toISOString "net kp" "id_k kp" "key_k kp" isLoggedIn 0]
    by (auto simp: f_def)
  then have all: "\<forall>x\<in>set keyPairs. fst (?p x) = Inr (f x)" by blast
  have ten: "(1::int) \<le> 10" by simp
  from batchLoop_resolves [OF ten all, of 0 100 "[]" "[]"]
  obtain tr where "batchProcess keyPairs ?p 10 100 = Some (Inr (map f keyPairs), tr)"
    by (auto simp: batchProcess_def)
  with False
  have "getAggregatedData toISOString net now (Inr keyPairs) isLoggedIn
          = Some (Inr (aggregateResults now keyPairs (map f keyPairs)))"
    by (simp add: getAggregatedData_def)
  moreover have "map Inr (map f keyPairs) = map (\<lambda>kp. fst (?p kp)) keyPairs"
    using each by simp
  moreover have "map id_r (map f keyPairs) = map id_k keyPairs"
    using each by simp
  ultimately show ?thesis by blast
qed


text \<open>
  Beyond \<open>2 ^ 53\<close> the sums and differences round: adding 1 to \<open>2 ^ 53\<close> leaves it
  unchanged, and \<open>2 ^ 53 + 2\<close> less 1 is \<open>2 ^ 53\<close>.
\<close>

lemma rounding_examples:
  "js_add (js_add (Fin 0) (Fin (2 ^ 53))) (Fin 1) = Fin (2 ^ 53)"
  "max_0 (js_sub (Fin (2 ^ 53 + 2)) (Fin 1)) = Fin (2 ^ 53)"
  by code_simp+


text \<open>
  Two usage records whose exact remainders differ (\<open>2 ^ 53\<close> and \<open>2 ^ 53 + 1\<close>) but whose
  computed \<open>remaining\<close> is the same double keep their input order.
\<close>

lemma equal_remaining_example:
  "data (aggregateResults now []
      [ApiUsageData ''p'' ''fk-P...'' ''N/A'' ''N/A'' (Fin 0) (Fin (2 ^ 53)) (Fin 0),
       ApiUsageData ''q'' ''fk-Q...'' ''N/A'' ''N/A'' (Fin 1) (Fin (2 ^ 53 + 2)) (Fin 0)])
     = [ApiUsageData ''p'' ''fk-P...'' ''N/A'' ''N/A'' (Fin 0) (Fin (2 ^ 53)) (Fin 0),
        ApiUsageData ''q'' ''fk-Q...'' ''N/A'' ''N/A'' (Fin 1) (Fin (2 ^ 53 + 2)) (Fin 0)]"
  by code_simp



text \<open>
  C2. For every list of results the totals are the sums, added in input order in double
  arithmetic from 0, of \<open>used\<close>, of \<open>allowance\<close> and of the per-key
  \<open>remaining = Math.max(0, allowance - used)\<close> over the usage records only, so error
  records add nothing; the response of \<open>getAggregatedData\<close> carries the totals of the
  results fetched. When the counts are integers that are not negative and their sums are
  less than \<open>2 ^ 53\<close>, the totals are the exact sums. \<open>totalRemaining\<close> is not
  \<open>max(0, totalAllowance - totalUsed)\<close>: with one key 5 tokens over its allowance and one
  with 10 tokens left, \<open>totalRemaining\<close> is 10 and the other formula gives 5.
\<close>

theorem aggregate_totals:
  "totals (aggregateResults now keyPairs results)
     = \<lparr>total_orgTotalTokensUsed =
          foldl js_add (Fin 0) (map orgTotalTokensUsed (filter isApiUsageData results)),
        total_totalAllowance =
          foldl js_add (Fin 0) (map totalAllowance (filter isApiUsageData results)),
        totalRemaining =
          foldl js_add (Fin 0) (map remaining (filter isApiUsageData results))\<rparr>
   \<and> totals (aggregateResults now keyPairs results)
     = totals (aggregateResults now keyPairs (filter isApiUsageData results))
   \<and> (\<exists>resp rs. getAggregatedData toISOString net now (Inr keyPairs) isLoggedIn = Some (Inr resp)
        \<and> map Inr rs
            = map (\<lambda>kp. fst (fetchApiKeyData toISOString (net kp) (id_k kp) (key_k kp) isLoggedIn 0))
                keyPairs
        \<and> totals resp = totals (aggregateResults now keyPairs rs))
   \<and> (map orgTotalTokensUsed (filter isApiUsageData results) = map (\<lambda>n. Fin (of_int n)) us
        \<and> map totalAllowance (filter isApiUsageData results) = map (\<lambda>n. Fin (of_int n)) al
        \<and> (\<forall>n\<in>set us. 0 \<le> n) \<and> (\<forall>n\<in>set al. 0 \<le> n)
        \<and> sum_list us < 2 ^ 53 \<and> sum_list al < 2 ^ 53 \<longrightarrow>
        totals (aggregateResults now keyPairs results)
          = \<lparr>total_orgTotalTokensUsed = Fin (of_int (sum_list us)),
             total_totalAllowance = Fin (of_int (sum_list al)),
             totalRemaining = Fin (of_int (sum_list (map2 (\<lambda>a u. max 0 (a - u)) al us)))\<rparr>)
   \<and> totalRemaining (totals (aggregateResults now keyPairs
        [ApiUsageData ''a'' ''fk-A...'' ''N/A'' ''N/A'' (Fin 10) (Fin 5) (Fin 2),
         ApiUsageData ''b'' ''fk-B...'' ''N/A'' ''N/A'' (Fin 0) (Fin 10) (Fin 0),
         ApiErrorData ''c'' ''fk-C...'' ''HTTP 500''])) = Fin 10
   \<and> max_0 (js_sub
        (total_totalAllowance (totals (aggregateResults now keyPairs
          [ApiUsageData ''a'' ''fk-A...'' ''N/A'' ''N/A'' (Fin 10) (Fin 5) (Fin 2),
           ApiUsageData ''b'' ''fk-B...'' ''N/A'' ''N/A'' (Fin 0) (Fin 10) (Fin 0),
           ApiErrorData ''c'' ''fk-C...'' ''HTTP 500''])))
        (total_orgTotalTokensUsed (totals (aggregateResults now keyPairs
          [ApiUsageData ''a'' ''fk-A...'' ''N/A'' ''N/A'' (Fin 10) (Fin 5) (Fin 2),
           ApiUsageData ''b'' ''fk-B...'' ''N/A'' ''N/A'' (Fin 0) (Fin 10) (Fin 0),
           ApiErrorData ''c'' ''fk-C...'' ''HTTP 500''])))) = Fin 5"
proof (intro conjI impI)
  show "totals (aggregateResults now keyPairs results)
     = \<lparr>total_orgTotalTokensUsed =
          foldl js_add (Fin 0) (map orgTotalTokensUsed (filter isApiUsageData results)),
        total_totalAllowance =
          foldl js_add (Fin 0) (map totalAllowance (filter isApiUsageData results)),
        totalRemaining =
          foldl js_add (Fin 0) (map remaining (filter isApiUsageData results))\<rparr>"
    by (rule totals_aggregateResults)
next
  show "totals (aggregateResults now keyPairs results)
     = totals (aggregateResults now keyPairs (filter isApiUsageData results))"
    by (simp add: totals_aggregateResults)
next
  from getAggregatedData_resolves [of toISOString net now keyPairs isLoggedIn]
  show "\<exists>resp rs. getAggregatedData toISOString net now (Inr keyPairs) isLoggedIn = Some (Inr resp)
        \<and> map Inr rs
            = map (\<lambda>kp. fst (fetchApiKeyData toISOString (net kp) (id_k kp) (key_k kp) isLoggedIn 0))
                keyPairs
        \<and> totals resp = totals (aggregateResults now keyPairs rs)"
    by blast
next
  assume "map orgTotalTokensUsed (filter isApiUsageData results) = map (\<lambda>n. Fin (of_int n)) us
        \<and> map totalAllowance (filter isApiUsageData results) = map (\<lambda>n. Fin (of_int n)) al
        \<and> (\<forall>n\<in>set us. 0 \<le> n) \<and> (\<forall>n\<in>set al. 0 \<le> n)
        \<and> sum_list us < 2 ^ 53 \<and> sum_list al < 2 ^ 53"
  then show "totals (aggregateResults now keyPairs results)
          = \<lparr>total_orgTotalTokensUsed = Fin (of_int (sum_list us)),
             total_totalAllowance = Fin (of_int (sum_list al)),
             totalRemaining = Fin (of_int (sum_list (map2 (\<lambda>a u. max 0 (a - u)) al us)))\<rparr>"
    by (intro totals_safe) simp_all
next
  let ?ex = "[ApiUsageData ''a'' ''fk-A...'' ''N/A'' ''N/A'' (Fin 10) (Fin 5) (Fin 2),
         ApiUsageData ''b'' ''fk-B...'' ''N/A'' ''N/A'' (Fin 0) (Fin 10) (Fin 0),
         ApiErrorData ''c'' ''fk-C...'' ''HTTP 500'']"
  have t: "totals (aggregateResults now keyPairs ?ex)
          = \<lparr>total_orgTotalTokensUsed = Fin (of_int (sum_list [10, 0])),
             total_totalAllowance = Fin (of_int (sum_list [5, 10])),
             totalRemaining = Fin (of_int (sum_list (map2 (\<lambda>a u. max 0 (a - u)) [5, 10] [10, 0])))\<rparr>"
    by (rule totals_safe) (simp_all add: isApiUsageData_def hasError_def)
  show "totalRemaining (totals (aggregateResults now keyPairs ?ex)) = Fin 10"
    by (simp add: t)
  have "js_sub (Fin (of_int 15)) (Fin (of_int 10)) = Fin (of_int (15 - 10))"
    using rnd_exact [of "15 - 10"] by (simp add: js_sub_def)
  then show "max_0 (js_sub (total_totalAllowance (totals (aggregateResults now keyPairs ?ex)))
        (total_orgTotalTokensUsed (totals (aggregateResults now keyPairs ?ex)))) = Fin 5"
    by (simp add: t)
qed

theorem aggregate_totals_witness:
  "totals (aggregateResults ''2025-01-01 00:00:00'' example_keys
      [ApiUsageData ''a'' ''fk-A...AAAA'' ''N/A'' ''N/A'' (Fin 0) (Fin 10) (Fin 0),
       ApiErrorData ''b'' ''fk-B...BBBB'' ''HTTP 500'',
       ApiUsageData ''c'' ''fk-C...CCCC'' ''N/A'' ''N/A'' (Fin 20) (Fin 5) (Fin 0),
       ApiUsageData ''d'' ''fk-D...DDDD'' ''N/A'' ''N/A'' (Fin 0) (Fin 30) (Fin 0),
       ApiErrorData ''e'' ''fk-E...EEEE'' ''HTTP 401''])
     = \<lparr>total_orgTotalTokensUsed = Fin 20, total_totalAllowance = Fin 45, totalRemaining = Fin 40\<rparr>"
proof -
  let ?rs = "[ApiUsageData ''a'' ''fk-A...AAAA'' ''N/A'' ''N/A'' (Fin 0) (Fin 10) (Fin 0),
       ApiErrorData ''b'' ''fk-B...BBBB'' ''HTTP 500'',
       ApiUsageData ''c'' ''fk-C...CCCC'' ''N/A'' ''N/A'' (Fin 20) (Fin 5) (Fin 0),
       ApiUsageData ''d'' ''fk-D...DDDD'' ''N/A'' ''N/A'' (Fin 0) (Fin 30) (Fin 0),
       ApiErrorData ''e'' ''fk-E...EEEE'' ''HTTP 401'']"
  note safe = aggregate_totals [where now = "''2025-01-01 00:00:00''" and keyPairs = example_keys
      and results = ?rs and us = "[0, 20, 0]" and al = "[10, 5, 30]",
      THEN conjunct2, THEN conjunct2, THEN conjunct2, THEN conjunct1]
  have "map orgTotalTokensUsed (filter isApiUsageData ?rs) = map (\<lambda>n. Fin (of_int n)) [0, 20, 0]
        \<and> map totalAllowance (filter isApiUsageData ?rs) = map (\<lambda>n. Fin (of_int n)) [10, 5, 30]
        \<and> (\<forall>n\<in>set [0, 20, 0 :: int]. 0 \<le> n) \<and> (\<forall>n\<in>set [10, 5, 30 :: int]. 0 \<le> n)
        \<and> sum_list [0, 20, 0 :: int] < 2 ^ 53 \<and> sum_list [10, 5, 30 :: int] < 2 ^ 53"
    by (simp add: isApiUsageData_def hasError_def)
  with safe
  have "totals (aggregateResults ''2025-01-01 00:00:00'' example_keys ?rs)
          = \<lparr>total_orgTotalTokensUsed = Fin (of_int (sum_list [0, 20, 0])),
             total_totalAllowance = Fin (of_int (sum_list [10, 5, 30])),
             totalRemaining =
               Fin (of_int (sum_list (map2 (\<lambda>a u. max 0 (a - u)) [10, 5, 30] [0, 20, 0])))\<rparr>"
    by (rule mp)
  then show ?thesis by simp
qed

end
